theory Spec2Isabelle
  imports Complex_Main
begin

section \<open>Python values and the operations of the viewer that can raise\<close>

text \<open>
  The program is \<^verbatim>\<open>examples/python_questnav_viewer/questnav_viewer.py\<close>: a
  Tk viewer whose method \<^verbatim>\<open>_update_loop\<close> is rescheduled every 50 ms and reads the
  QuestNav library once per tick. Python integers are \<open>int\<close>; Python floats are
  idealised as \<open>real\<close> (no rounding, no NaN, no infinities). The operations of the
  loop that raise in Python return a sum, \<open>Inl\<close> being the exception;
  \<open>LibraryError\<close> is an exception raised inside a call of the library.
\<close>

datatype py_error = IndexError | ZeroDivisionError | LibraryError

text \<open>\<^verbatim>\<open>a / b\<close> on floats: ZeroDivisionError when the divisor is zero.\<close>

definition py_truediv :: "real \<Rightarrow> real \<Rightarrow> py_error + real" where
  "py_truediv a b = (if b = 0 then Inl ZeroDivisionError else Inr (a / b))"

text \<open>\<^verbatim>\<open>xs[0]\<close>: IndexError on the empty list.\<close>

definition py_index0 :: "'a list \<Rightarrow> py_error + 'a" where
  "py_index0 xs = (case xs of [] \<Rightarrow> Inl IndexError | x # _ \<Rightarrow> Inr x)"

text \<open>\<^verbatim>\<open>xs.pop(0)\<close>: the list without its first element; IndexError on the empty list.\<close>

definition py_pop0 :: "'a list \<Rightarrow> py_error + 'a list" where
  "py_pop0 xs = (case xs of [] \<Rightarrow> Inl IndexError | _ # rest \<Rightarrow> Inr rest)"

text \<open>\<^verbatim>\<open>int(x)\<close> on a float truncates toward zero.\<close>

definition py_int :: "real \<Rightarrow> int" where
  "py_int x = (if 0 \<le> x then \<lfloor>x\<rfloor> else \<lceil>x\<rceil>)"

section \<open>Data of the library and of the viewer\<close>

text \<open>
  \<^verbatim>\<open>Pose3d\<close> (wpimath) as the six numbers the viewer reads from it: the translation
  and the rotation angles in radians.
\<close>

record Pose3d =
  pose_x :: real
  pose_y :: real
  pose_z :: real
  rot_x :: real
  rot_y :: real
  rot_z :: real

text \<open>
  \<^verbatim>\<open>PoseFrame\<close> (questnav): the viewer reads \<^verbatim>\<open>frame.frame_count\<close> and
  \<^verbatim>\<open>frame.quest_pose_3d\<close>. The class itself is not part of the viewer's file, so its
  \<^verbatim>\<open>==\<close> is a parameter \<open>eq\<close> of every function below that compares frames.
\<close>

record PoseFrame =
  frame_count :: int
  quest_pose_3d :: Pose3d

type_synonym frame_eq = "PoseFrame \<Rightarrow> PoseFrame \<Rightarrow> bool"

text \<open>An event of the connection listener's queue; \<open>kConnected\<close> carries the remote address.\<close>

datatype conn_event = kConnected string | kDisconnected | kOther

text \<open>
  The lines the viewer passes to \<^verbatim>\<open>_log\<close>, one constructor per message template
  (the timestamp prefix that \<^verbatim>\<open>_log\<close> adds is left out):
  \<^item> \<open>Initialized\<close>: "QuestNav Viewer initialized"; \<open>Listening\<close>: "NT4 Server listening on
    port 5810"; \<open>Waiting\<close>: "Waiting for Quest headset...";
  \<^item> \<open>QuestConnectedFrom ip\<close>: "Quest connected from ip"; \<open>QuestDisconnected\<close>: "Quest
    disconnected" (both from the listener queue);
  \<^item> \<open>DroppedFrames d\<close>: "[WARN] Dropped d frames"; \<open>LowBattery b\<close>: "[WARN] Low battery: b%";
  \<^item> \<open>ConnStarted\<close>: "[OK] Quest connected - receiving data"; \<open>ConnLost\<close>: "[WARN] Quest
    disconnected"; \<open>TrackingStarted\<close>: "[OK] Tracking started"; \<open>TrackingLost\<close>: "[WARN]
    Tracking lost!";
  \<^item> \<open>CmdSentCustom x y z yaw\<close>: "[CMD] Sent pose reset to (x, y, z, yaw=...)";
    \<open>CmdWaiting\<close>: "      Waiting for command response...";
  \<^item> \<open>LogPaused\<close>: "=== LOG PAUSED ==="; \<open>LogResumed\<close>: "=== LOG RESUMED ===".
\<close>

datatype log_msg =
    Initialized | Listening | Waiting
  | QuestConnectedFrom string | QuestDisconnected
  | DroppedFrames int | LowBattery int
  | ConnStarted | ConnLost | TrackingStarted | TrackingLost
  | CmdSentCustom real real real real | CmdWaiting
  | LogPaused | LogResumed

text \<open>
  The labels of the window, each holding the value last formatted into its text
  (\<open>None\<close> where the text still is the placeholder "---").
\<close>

record display =
  conn_label :: bool
  track_label :: bool
  batt_label :: "int option"
  latency_label :: "real option"
  frame_count_label :: int
  tracking_lost_label :: int
  total_frames_label :: int
  frame_drops_label :: int
  frame_rate_label :: "real option"
  uptime_label :: "int \<times> int"
  pose_labels :: "Pose3d option"

text \<open>
  The attributes of \<^verbatim>\<open>QuestNavViewer\<close>. \<open>was_connected\<close> and \<open>was_tracking\<close> are
  \<open>None\<close> while the attribute does not exist (\<^verbatim>\<open>hasattr\<close> is false);
  \<open>low_battery_warned\<close> says whether \<^verbatim>\<open>_low_battery_warned\<close> exists.
  \<open>event_log\<close> is the content of the log widget, \<open>set_pose_calls\<close> the calls made to
  \<^verbatim>\<open>questnav.set_pose\<close>, \<open>error_boxes\<close> the strings shown by
  \<^verbatim>\<open>messagebox.showerror\<close>, \<open>after_calls\<close> the number of calls of
  \<^verbatim>\<open>root.after(50, self._update_loop)\<close>.
\<close>

record viewer =
  total_frames_received :: int
  last_frame_count :: int
  frame_drops :: int
  start_time :: real
  frame_rate_samples :: "real list"
  last_frame_time :: real
  log_paused :: bool
  running :: bool
  was_connected :: "bool option"
  was_tracking :: "bool option"
  low_battery_warned :: bool
  event_log :: "log_msg list"
  set_pose_calls :: "Pose3d list"
  error_boxes :: "string list"
  custom_dialog_open :: bool
  after_calls :: nat
  labels :: display

text \<open>What the library returns to one tick, one field per call of \<^verbatim>\<open>_update_loop\<close>.\<close>

record tick_input =
  time_now :: real
  readQueue :: "conn_event list"
  get_all_unread_pose_frames :: "PoseFrame list"
  is_connected :: bool
  is_tracking :: bool
  get_battery_percent :: "int option"
  get_latency :: real
  get_frame_count :: "int option"
  get_tracking_lost_counter :: "int option"

section \<open>The viewer\<close>

text \<open>The state \<^verbatim>\<open>__init__\<close> leaves, before its first call of \<^verbatim>\<open>_update_loop\<close>
  (\<open>t0\<close> is \<^verbatim>\<open>time.time()\<close>).\<close>

definition init_display :: display where
  "init_display =
     \<lparr>conn_label = False, track_label = False, batt_label = None, latency_label = None,
      frame_count_label = 0, tracking_lost_label = 0, total_frames_label = 0,
      frame_drops_label = 0, frame_rate_label = None, uptime_label = (0, 0),
      pose_labels = None\<rparr>"

definition init_viewer :: "real \<Rightarrow> viewer" where
  "init_viewer t0 =
     \<lparr>total_frames_received = 0, last_frame_count = 0, frame_drops = 0, start_time = t0,
      frame_rate_samples = [], last_frame_time = 0, log_paused = False, running = True,
      was_connected = None, was_tracking = None, low_battery_warned = False,
      event_log = [Initialized, Listening, Waiting], set_pose_calls = [],
      error_boxes = [], custom_dialog_open = False, after_calls = 0,
      labels = init_display\<rparr>"

text \<open>\<^verbatim>\<open>_log\<close>: nothing is written while the log is paused.\<close>

definition viewer_log :: "viewer \<Rightarrow> log_msg \<Rightarrow> viewer" where
  "viewer_log s msg =
     (if log_paused s then s else s\<lparr>event_log := event_log s @ [msg]\<rparr>)"

text \<open>
  \<^verbatim>\<open>_toggle_log_pause\<close> (lines 441 to 452): on pausing the line goes to the widget
  directly, on resuming through \<^verbatim>\<open>_log\<close>, the log being no longer paused then.
\<close>

definition toggle_log_pause :: "viewer \<Rightarrow> viewer" where
  "toggle_log_pause s =
     (let s1 = s\<lparr>log_paused := \<not> log_paused s\<rparr> in
      if log_paused s1 then s1\<lparr>event_log := event_log s1 @ [LogPaused]\<rparr>
      else viewer_log s1 LogResumed)"

text \<open>The body of the loop over the listener queue (lines 211 to 216).\<close>

definition conn_event_step :: "viewer \<Rightarrow> conn_event \<Rightarrow> viewer" where
  "conn_event_step s ev =
     (case ev of
        kConnected ip \<Rightarrow> viewer_log s (QuestConnectedFrom ip)
      | kDisconnected \<Rightarrow> viewer_log s QuestDisconnected
      | kOther \<Rightarrow> s)"

text \<open>
  Lines 230 to 237, the drop check on one frame of the batch \<open>frames\<close>:
  \<^verbatim>\<open>if self.last_frame_count > 0 and frame == frames[0]\<close>, the \<^verbatim>\<open>and\<close> evaluating
  \<^verbatim>\<open>frames[0]\<close> only when the first test holds.
\<close>

definition drop_check :: "frame_eq \<Rightarrow> PoseFrame list \<Rightarrow> viewer \<Rightarrow> PoseFrame \<Rightarrow> py_error + viewer" where
  "drop_check eq frames s frame =
     (if last_frame_count s > 0 then
        (case py_index0 frames of
           Inl e \<Rightarrow> Inl e
         | Inr first \<Rightarrow>
             if eq frame first then
               (let expected = last_frame_count s + 1 in
                if frame_count frame > expected then
                  (let drops = frame_count frame - expected;
                       s1 = s\<lparr>frame_drops := frame_drops s + drops\<rparr>
                   in Inr (if drops > 5 then viewer_log s1 (DroppedFrames drops) else s1))
                else Inr s)
             else Inr s)
      else Inr s)"

text \<open>Lines 246 to 248: append the sample, then drop the oldest when more than 10 are held.\<close>

definition push_sample :: "real list \<Rightarrow> real \<Rightarrow> py_error + real list" where
  "push_sample samples fps =
     (let xs = samples @ [fps] in if length xs > 10 then py_pop0 xs else Inr xs)"

text \<open>Lines 242 to 248, the frame rate from the time since the last frame.\<close>

definition rate_step :: "real \<Rightarrow> viewer \<Rightarrow> py_error + viewer" where
  "rate_step current_time s =
     (if last_frame_time s > 0 then
        (let dt = current_time - last_frame_time s in
         if dt > 0 then
           (case py_truediv 1 dt of
              Inl e \<Rightarrow> Inl e
            | Inr fps \<Rightarrow>
                (case push_sample (frame_rate_samples s) fps of
                   Inl e \<Rightarrow> Inl e
                 | Inr xs \<Rightarrow> Inr (s\<lparr>frame_rate_samples := xs\<rparr>)))
         else Inr s)
      else Inr s)"

text \<open>The body of \<^verbatim>\<open>for frame in frames\<close> (lines 228 to 253).\<close>

definition process_frame ::
  "frame_eq \<Rightarrow> PoseFrame list \<Rightarrow> real \<Rightarrow> viewer \<Rightarrow> PoseFrame \<Rightarrow> py_error + viewer" where
  "process_frame eq frames current_time s frame =
     (let s1 = s\<lparr>total_frames_received := total_frames_received s + 1\<rparr> in
      case drop_check eq frames s1 frame of
        Inl e \<Rightarrow> Inl e
      | Inr s2 \<Rightarrow>
          (let s3 = s2\<lparr>last_frame_count := frame_count frame\<rparr> in
           case rate_step current_time s3 of
             Inl e \<Rightarrow> Inl e
           | Inr s4 \<Rightarrow>
               Inr (s4\<lparr>last_frame_time := current_time,
                       labels := (labels s4)\<lparr>pose_labels := Some (quest_pose_3d frame)\<rparr>\<rparr>)))"

text \<open>The loop itself: \<open>frames\<close> is the whole batch, the last argument what is left of it.\<close>

fun for_frames ::
  "frame_eq \<Rightarrow> PoseFrame list \<Rightarrow> real \<Rightarrow> viewer \<Rightarrow> PoseFrame list \<Rightarrow> py_error + viewer" where
  "for_frames eq frames current_time s [] = Inr s"
| "for_frames eq frames current_time s (frame # rest) =
     (case process_frame eq frames current_time s frame of
        Inl e \<Rightarrow> Inl e
      | Inr s' \<Rightarrow> for_frames eq frames current_time s' rest)"

text \<open>Lines 255 to 267: the connection and tracking labels.\<close>

definition show_connected :: "viewer \<Rightarrow> bool \<Rightarrow> viewer" where
  "show_connected s c = s\<lparr>labels := (labels s)\<lparr>conn_label := c\<rparr>\<rparr>"

definition show_tracking :: "viewer \<Rightarrow> bool \<Rightarrow> viewer" where
  "show_tracking s t = s\<lparr>labels := (labels s)\<lparr>track_label := t\<rparr>\<rparr>"

text \<open>Lines 269 to 276: the battery label and the low battery warning.\<close>

definition show_battery :: "viewer \<Rightarrow> int option \<Rightarrow> viewer" where
  "show_battery s battery =
     (case battery of
        None \<Rightarrow> s
      | Some b \<Rightarrow>
          (let s1 = s\<lparr>labels := (labels s)\<lparr>batt_label := Some b\<rparr>\<rparr> in
           if b < 20 \<and> \<not> low_battery_warned s1
           then (viewer_log s1 (LowBattery b))\<lparr>low_battery_warned := True\<rparr>
           else s1))"

text \<open>Lines 278 to 290: latency, the device's frame counter and its tracking-lost counter.\<close>

definition show_latency :: "viewer \<Rightarrow> real \<Rightarrow> viewer" where
  "show_latency s l = s\<lparr>labels := (labels s)\<lparr>latency_label := Some l\<rparr>\<rparr>"

definition show_frame_count :: "viewer \<Rightarrow> int option \<Rightarrow> viewer" where
  "show_frame_count s fc =
     (case fc of None \<Rightarrow> s
      | Some n \<Rightarrow> s\<lparr>labels := (labels s)\<lparr>frame_count_label := n\<rparr>\<rparr>)"

definition show_tracking_lost :: "viewer \<Rightarrow> int option \<Rightarrow> viewer" where
  "show_tracking_lost s lost =
     (case lost of None \<Rightarrow> s
      | Some n \<Rightarrow> s\<lparr>labels := (labels s)\<lparr>tracking_lost_label := n\<rparr>\<rparr>)"

text \<open>Lines 293 and 294.\<close>

definition show_stats :: "viewer \<Rightarrow> viewer" where
  "show_stats s =
     s\<lparr>labels := (labels s)\<lparr>total_frames_label := total_frames_received s,
                             frame_drops_label := frame_drops s\<rparr>\<rparr>"

text \<open>Lines 297 to 299: the mean of the samples, when there is one.\<close>

definition show_frame_rate :: "viewer \<Rightarrow> py_error + viewer" where
  "show_frame_rate s =
     (if frame_rate_samples s \<noteq> [] then
        (case py_truediv (sum_list (frame_rate_samples s)) (real (length (frame_rate_samples s))) of
           Inl e \<Rightarrow> Inl e
         | Inr avg_fps \<Rightarrow> Inr (s\<lparr>labels := (labels s)\<lparr>frame_rate_label := Some avg_fps\<rparr>\<rparr>))
      else Inr s)"

text \<open>Lines 302 to 305.\<close>

definition show_uptime :: "viewer \<Rightarrow> real \<Rightarrow> viewer" where
  "show_uptime s current_time =
     (let uptime_seconds = py_int (current_time - start_time s) in
      s\<lparr>labels := (labels s)\<lparr>uptime_label := (uptime_seconds div 60, uptime_seconds mod 60)\<rparr>\<rparr>)"

text \<open>Lines 308 to 313 and 316 to 321: the edges of the two flags.\<close>

definition log_connection_changes :: "viewer \<Rightarrow> bool \<Rightarrow> viewer" where
  "log_connection_changes s c =
     (let s1 = (case was_connected s of
                  None \<Rightarrow> s
                | Some w \<Rightarrow>
                    if c \<and> \<not> w then viewer_log s ConnStarted
                    else if \<not> c \<and> w then viewer_log s ConnLost
                    else s)
      in s1\<lparr>was_connected := Some c\<rparr>)"

definition log_tracking_changes :: "viewer \<Rightarrow> bool \<Rightarrow> viewer" where
  "log_tracking_changes s t =
     (let s1 = (case was_tracking s of
                  None \<Rightarrow> s
                | Some w \<Rightarrow>
                    if t \<and> \<not> w then viewer_log s TrackingStarted
                    else if \<not> t \<and> w then viewer_log s TrackingLost
                    else s)
      in s1\<lparr>was_tracking := Some t\<rparr>)"

text \<open>Lines 255 to 294 in the order of the source.\<close>

definition show_status :: "viewer \<Rightarrow> tick_input \<Rightarrow> viewer" where
  "show_status s i =
     show_stats
       (show_tracking_lost
          (show_frame_count
             (show_latency
                (show_battery
                   (show_tracking (show_connected s (is_connected i)) (is_tracking i))
                   (get_battery_percent i))
                (get_latency i))
             (get_frame_count i))
          (get_tracking_lost_counter i))"

text \<open>Lines 302 to 324: uptime, the two edge logs, and the call of \<^verbatim>\<open>root.after\<close>.\<close>

definition finish_tick :: "viewer \<Rightarrow> tick_input \<Rightarrow> viewer" where
  "finish_tick s i =
     (let s1 = log_tracking_changes
                 (log_connection_changes (show_uptime s (time_now i)) (is_connected i))
                 (is_tracking i)
      in s1\<lparr>after_calls := Suc (after_calls s1)\<rparr>)"

text \<open>
  \<^verbatim>\<open>_update_loop\<close> on the values its calls of the library return. It returns at once
  when \<^verbatim>\<open>_running\<close> is false. The call \<^verbatim>\<open>questnav.command_periodic()\<close> changes
  nothing the viewer reads. The method has no \<^verbatim>\<open>try\<close>: an exception of one of its
  own operations leaves it, and the next tick is not scheduled.
\<close>

definition update_loop :: "frame_eq \<Rightarrow> viewer \<Rightarrow> tick_input \<Rightarrow> py_error + viewer" where
  "update_loop eq s i =
     (if \<not> running s then Inr s
      else
        (let s1 = foldl conn_event_step s (readQueue i);
             frames = get_all_unread_pose_frames i
         in case for_frames eq frames (time_now i) s1 frames of
              Inl e \<Rightarrow> Inl e
            | Inr s2 \<Rightarrow>
                (case show_frame_rate (show_status s2 i) of
                   Inl e \<Rightarrow> Inl e
                 | Inr s3 \<Rightarrow> Inr (finish_tick s3 i))))"

text \<open>Successive ticks: a tick that raises is the last one.\<close>

fun run_ticks :: "frame_eq \<Rightarrow> viewer \<Rightarrow> tick_input list \<Rightarrow> py_error + viewer" where
  "run_ticks eq s [] = Inr s"
| "run_ticks eq s (i # rest) =
     (case update_loop eq s i of
        Inl e \<Rightarrow> Inl e
      | Inr s' \<Rightarrow> run_ticks eq s' rest)"

text \<open>What a run shows of its final state; \<open>None\<close> when a tick raised.\<close>

definition observe :: "(viewer \<Rightarrow> 'a) \<Rightarrow> py_error + viewer \<Rightarrow> 'a option" where
  "observe f r = (case r of Inl e \<Rightarrow> None | Inr s \<Rightarrow> Some (f s))"

section \<open>The calls of the library in a tick\<close>

text \<open>
  What each call of \<^verbatim>\<open>_update_loop\<close> does in one tick, in the order of the source:
  it returns a value (\<open>Inr\<close>) or raises (\<open>Inl\<close>). \<open>call_time\<close> is
  \<^verbatim>\<open>time.time()\<close>.
\<close>

record library_calls =
  call_time :: real
  call_readQueue :: "py_error + conn_event list"
  call_command_periodic :: "py_error + unit"
  call_get_all_unread_pose_frames :: "py_error + PoseFrame list"
  call_is_connected :: "py_error + bool"
  call_is_tracking :: "py_error + bool"
  call_get_battery_percent :: "py_error + int option"
  call_get_latency :: "py_error + real"
  call_get_frame_count :: "py_error + int option"
  call_get_tracking_lost_counter :: "py_error + int option"

text \<open>
  \<^verbatim>\<open>_update_loop\<close> with its calls written out (lines 203 to 324). There is no
  \<^verbatim>\<open>try\<close> in the method, so the exception of a call leaves it there: what comes
  after, and the call of \<^verbatim>\<open>root.after\<close> in its last line, is not reached.
\<close>

definition update_loop_calls :: "frame_eq \<Rightarrow> viewer \<Rightarrow> library_calls \<Rightarrow> py_error + viewer" where
  "update_loop_calls eq s c =
     (if \<not> running s then Inr s
      else
        (let current_time = call_time c in
         case call_readQueue c of
           Inl e \<Rightarrow> Inl e
         | Inr events \<Rightarrow>
        (let s1 = foldl conn_event_step s events in
         case call_command_periodic c of
           Inl e \<Rightarrow> Inl e
         | Inr u \<Rightarrow>
        (case call_get_all_unread_pose_frames c of
           Inl e \<Rightarrow> Inl e
         | Inr frames \<Rightarrow>
        (case for_frames eq frames current_time s1 frames of
           Inl e \<Rightarrow> Inl e
         | Inr s2 \<Rightarrow>
        (case call_is_connected c of
           Inl e \<Rightarrow> Inl e
         | Inr conn \<Rightarrow>
        (let s3 = show_connected s2 conn in
         case call_is_tracking c of
           Inl e \<Rightarrow> Inl e
         | Inr trk \<Rightarrow>
        (let s4 = show_tracking s3 trk in
         case call_get_battery_percent c of
           Inl e \<Rightarrow> Inl e
         | Inr battery \<Rightarrow>
        (let s5 = show_battery s4 battery in
         case call_get_latency c of
           Inl e \<Rightarrow> Inl e
         | Inr latency \<Rightarrow>
        (let s6 = show_latency s5 latency in
         case call_get_frame_count c of
           Inl e \<Rightarrow> Inl e
         | Inr fcount \<Rightarrow>
        (let s7 = show_frame_count s6 fcount in
         case call_get_tracking_lost_counter c of
           Inl e \<Rightarrow> Inl e
         | Inr lost \<Rightarrow>
        (let s8 = show_stats (show_tracking_lost s7 lost) in
         case show_frame_rate s8 of
           Inl e \<Rightarrow> Inl e
         | Inr s9 \<Rightarrow>
        (let s10 = log_tracking_changes
                     (log_connection_changes (show_uptime s9 current_time) conn) trk
         in Inr (s10\<lparr>after_calls := Suc (after_calls s10)\<rparr>))))))))))))))"

text \<open>The tick in which every call returns, with the values of \<open>i\<close>.\<close>

definition returning :: "tick_input \<Rightarrow> library_calls" where
  "returning i =
     \<lparr>call_time = time_now i,
      call_readQueue = Inr (readQueue i),
      call_command_periodic = Inr (),
      call_get_all_unread_pose_frames = Inr (get_all_unread_pose_frames i),
      call_is_connected = Inr (is_connected i),
      call_is_tracking = Inr (is_tracking i),
      call_get_battery_percent = Inr (get_battery_percent i),
      call_get_latency = Inr (get_latency i),
      call_get_frame_count = Inr (get_frame_count i),
      call_get_tracking_lost_counter = Inr (get_tracking_lost_counter i)\<rparr>"

text \<open>The exception of the first call that raises, in the order of the source.\<close>

definition first_raised :: "library_calls \<Rightarrow> py_error option" where
  "first_raised c =
     (case call_readQueue c of Inl e \<Rightarrow> Some e | Inr v1 \<Rightarrow>
     (case call_command_periodic c of Inl e \<Rightarrow> Some e | Inr v2 \<Rightarrow>
     (case call_get_all_unread_pose_frames c of Inl e \<Rightarrow> Some e | Inr v3 \<Rightarrow>
     (case call_is_connected c of Inl e \<Rightarrow> Some e | Inr v4 \<Rightarrow>
     (case call_is_tracking c of Inl e \<Rightarrow> Some e | Inr v5 \<Rightarrow>
     (case call_get_battery_percent c of Inl e \<Rightarrow> Some e | Inr v6 \<Rightarrow>
     (case call_get_latency c of Inl e \<Rightarrow> Some e | Inr v7 \<Rightarrow>
     (case call_get_frame_count c of Inl e \<Rightarrow> Some e | Inr v8 \<Rightarrow>
     (case call_get_tracking_lost_counter c of Inl e \<Rightarrow> Some e | Inr v9 \<Rightarrow>
        None)))))))))"

section \<open>The custom pose dialog\<close>

text \<open>The four entry fields of the dialog, as the strings \<^verbatim>\<open>Entry.get()\<close> returns.\<close>

record custom_entries =
  x_entry :: string
  y_entry :: string
  z_entry :: string
  yaw_entry :: string

text \<open>\<^verbatim>\<open>math.radians\<close>.\<close>

definition py_radians :: "real \<Rightarrow> real" where
  "py_radians d = d * pi / 180"

text \<open>The \<^verbatim>\<open>except ValueError\<close> branch: the error box, the dialog stays open.\<close>

definition show_invalid_input :: "viewer \<Rightarrow> string \<Rightarrow> viewer" where
  "show_invalid_input s bad = s\<lparr>error_boxes := error_boxes s @ [bad]\<rparr>"

text \<open>
  \<^verbatim>\<open>send_custom_pose\<close> (lines 392 to 413). Python's \<^verbatim>\<open>float\<close> is the parameter
  \<open>py_float\<close>, \<open>None\<close> where it raises ValueError; the four fields are converted in
  the order x, y, z, yaw, and the first failure leaves the \<^verbatim>\<open>try\<close> block. The call
  \<^verbatim>\<open>questnav.set_pose(custom_pose)\<close> is recorded in \<open>set_pose_calls\<close>.
\<close>

definition send_custom_pose :: "(string \<Rightarrow> real option) \<Rightarrow> viewer \<Rightarrow> custom_entries \<Rightarrow> viewer" where
  "send_custom_pose py_float s e =
     (case py_float (x_entry e) of
        None \<Rightarrow> show_invalid_input s (x_entry e)
      | Some x \<Rightarrow>
     (case py_float (y_entry e) of
        None \<Rightarrow> show_invalid_input s (y_entry e)
      | Some y \<Rightarrow>
     (case py_float (z_entry e) of
        None \<Rightarrow> show_invalid_input s (z_entry e)
      | Some z \<Rightarrow>
     (case py_float (yaw_entry e) of
        None \<Rightarrow> show_invalid_input s (yaw_entry e)
      | Some yaw_deg \<Rightarrow>
          (let custom_pose = \<lparr>pose_x = x, pose_y = y, pose_z = z,
                              rot_x = 0, rot_y = 0, rot_z = py_radians yaw_deg\<rparr>;
               s1 = s\<lparr>set_pose_calls := set_pose_calls s @ [custom_pose]\<rparr>;
               s2 = viewer_log (viewer_log s1 (CmdSentCustom x y z yaw_deg)) CmdWaiting
           in s2\<lparr>custom_dialog_open := False\<rparr>)))))"

section \<open>Notions used to state the properties\<close>

text \<open>The log lines of each kind.\<close>

definition is_conn_edge :: "log_msg \<Rightarrow> bool" where
  "is_conn_edge m = (m = ConnStarted \<or> m = ConnLost)"

definition is_tracking_edge :: "log_msg \<Rightarrow> bool" where
  "is_tracking_edge m = (m = TrackingStarted \<or> m = TrackingLost)"

fun is_low_battery :: "log_msg \<Rightarrow> bool" where
  "is_low_battery (LowBattery b) = True"
| "is_low_battery _ = False"


text \<open>
  The edge events as the specification words them (sections 4.3 and 9): the flag of each
  tick is compared with the previous one, false to true gives the "started" event, true
  to false the "lost" event, an unchanged flag gives nothing; \<open>None\<close> is "previous state
  unknown", before the first tick.
\<close>

fun spec_edge_events :: "log_msg \<Rightarrow> log_msg \<Rightarrow> bool option \<Rightarrow> bool list \<Rightarrow> log_msg list" where
  "spec_edge_events started lost prev [] = []"
| "spec_edge_events started lost prev (b # bs) =
     (case prev of
        None \<Rightarrow> []
      | Some p \<Rightarrow> if \<not> p \<and> b then [started] else if p \<and> \<not> b then [lost] else [])
     @ spec_edge_events started lost (Some b) bs"

text \<open>Sequence numbers that go up by exactly one from each frame to the next.\<close>

fun consecutive :: "int list \<Rightarrow> bool" where
  "consecutive (x # y # rest) = (y = x + 1 \<and> consecutive (y # rest))"
| "consecutive [x] = True"
| "consecutive [] = True"

text \<open>The mean the frame rate label shows.\<close>

definition mean :: "real list \<Rightarrow> real" where
  "mean xs = sum_list xs / real (length xs)"

section \<open>Concrete inputs\<close>

definition origin_pose :: Pose3d where
  "origin_pose = \<lparr>pose_x = 0, pose_y = 0, pose_z = 0, rot_x = 0, rot_y = 0, rot_z = 0\<rparr>"

definition frame_at :: "int \<Rightarrow> PoseFrame" where
  "frame_at n = \<lparr>frame_count = n, quest_pose_3d = origin_pose\<rparr>"

text \<open>A tick at time \<open>t\<close> with the given batch and flags, every optional reading absent.\<close>

definition tick_at :: "real \<Rightarrow> PoseFrame list \<Rightarrow> bool \<Rightarrow> bool \<Rightarrow> tick_input" where
  "tick_at t frames c tr =
     \<lparr>time_now = t, readQueue = [], get_all_unread_pose_frames = frames,
      is_connected = c, is_tracking = tr, get_battery_percent = None, get_latency = 0,
      get_frame_count = None, get_tracking_lost_counter = None\<rparr>"

text \<open>\<^verbatim>\<open>float\<close> on the strings of the examples below.\<close>

definition float_of_example :: "string \<Rightarrow> real option" where
  "float_of_example str =
     (if str = ''0.0'' then Some 0
      else if str = ''1.0'' then Some 1
      else if str = ''2.5'' then Some (5 / 2)
      else if str = ''90'' then Some 90
      else None)"

section \<open>The operations of the loop return\<close>

lemma py_truediv_pos: "0 < b \<Longrightarrow> py_truediv a b = Inr (a / b)"
  by (simp add: py_truediv_def)

lemma push_sample_Inr:
  "push_sample xs v = Inr (if length xs \<ge> 10 then tl (xs @ [v]) else xs @ [v])"
  by (cases xs) (simp_all add: push_sample_def py_pop0_def Let_def)

lemma rate_step_Inr:
  "rate_step now s =
     Inr (if last_frame_time s > 0 \<and> now - last_frame_time s > 0
          then s\<lparr>frame_rate_samples :=
                   (if length (frame_rate_samples s) \<ge> 10
                    then tl (frame_rate_samples s @ [1 / (now - last_frame_time s)])
                    else frame_rate_samples s @ [1 / (now - last_frame_time s)])\<rparr>
          else s)"
  by (simp add: rate_step_def Let_def py_truediv_pos push_sample_Inr)

lemma drop_check_Inr:
  "frames = f0 # fs \<Longrightarrow>
   drop_check eq frames s frame =
     Inr (if last_frame_count s > 0 \<and> eq frame f0 \<and> frame_count frame > last_frame_count s + 1
          then (let d = frame_count frame - (last_frame_count s + 1);
                    s1 = s\<lparr>frame_drops := frame_drops s + d\<rparr>
                in if d > 5 then viewer_log s1 (DroppedFrames d) else s1)
          else s)"
  by (simp add: drop_check_def py_index0_def Let_def)

lemma process_frame_counters:
  assumes "frames = f0 # fs"
  shows "\<exists>s'. process_frame eq frames now s frame = Inr s'
     \<and> total_frames_received s' = total_frames_received s + 1
     \<and> last_frame_count s' = frame_count frame
     \<and> last_frame_time s' = now
     \<and> frame_drops s' = frame_drops s +
          (if last_frame_count s > 0 \<and> eq frame f0 \<and> frame_count frame > last_frame_count s + 1
           then frame_count frame - (last_frame_count s + 1) else 0)
     \<and> frame_rate_samples s' =
          (if last_frame_time s > 0 \<and> now - last_frame_time s > 0
           then (if length (frame_rate_samples s) \<ge> 10
                 then tl (frame_rate_samples s @ [1 / (now - last_frame_time s)])
                 else frame_rate_samples s @ [1 / (now - last_frame_time s)])
           else frame_rate_samples s)"
  using assms
  by (auto simp: process_frame_def drop_check_Inr rate_step_Inr Let_def viewer_log_def)

lemma process_frame_keeps:
  assumes "frames = f0 # fs" and "process_frame eq frames now s frame = Inr s'"
  shows "log_paused s' = log_paused s \<and> running s' = running s
     \<and> was_connected s' = was_connected s \<and> was_tracking s' = was_tracking s
     \<and> low_battery_warned s' = low_battery_warned s \<and> start_time s' = start_time s
     \<and> after_calls s' = after_calls s \<and> set_pose_calls s' = set_pose_calls s
     \<and> labels s' = (labels s)\<lparr>pose_labels := Some (quest_pose_3d frame)\<rparr>
     \<and> (\<exists>ms. event_log s' = event_log s @ ms \<and> (\<forall>m \<in> set ms. \<exists>d. m = DroppedFrames d))"
  using assms
  by (auto simp: process_frame_def drop_check_Inr rate_step_Inr Let_def viewer_log_def
      split: if_splits)


lemma for_frames_total:
  "frames = f0 # fs \<Longrightarrow> \<exists>s'. for_frames eq frames now s rest = Inr s'"
proof (induction rest arbitrary: s)
  case Nil
  show ?case by simp
next
  case (Cons g rest)
  from process_frame_counters [OF Cons.prems, of eq now s g]
  obtain s1 where "process_frame eq frames now s g = Inr s1" by blast
  with Cons.IH [OF Cons.prems, of s1] show ?case by simp
qed

lemma for_frames_keeps:
  assumes "frames = f0 # fs" and "for_frames eq frames now s rest = Inr s'"
  shows "log_paused s' = log_paused s \<and> running s' = running s
     \<and> was_connected s' = was_connected s \<and> was_tracking s' = was_tracking s
     \<and> low_battery_warned s' = low_battery_warned s \<and> start_time s' = start_time s
     \<and> after_calls s' = after_calls s \<and> set_pose_calls s' = set_pose_calls s
     \<and> (\<exists>p. labels s' = (labels s)\<lparr>pose_labels := p\<rparr>)
     \<and> (\<exists>ms. event_log s' = event_log s @ ms \<and> (\<forall>m \<in> set ms. \<exists>d. m = DroppedFrames d))"
  using assms(2)
proof (induction rest arbitrary: s)
  case Nil
  have "labels s = (labels s)\<lparr>pose_labels := pose_labels (labels s)\<rparr>" by simp
  then have "\<exists>p. labels s = (labels s)\<lparr>pose_labels := p\<rparr>" ..
  with Nil show ?case by simp
next
  case (Cons g rest)
  from process_frame_counters [OF assms(1), of eq now s g]
  obtain s1 where s1: "process_frame eq frames now s g = Inr s1" by blast
  with Cons.prems have run: "for_frames eq frames now s1 rest = Inr s'" by simp
  note k1 = process_frame_keeps [OF assms(1) s1]
  note k2 = Cons.IH [OF run]
  from k2 obtain p where "labels s' = (labels s1)\<lparr>pose_labels := p\<rparr>" by blast
  with k1 have lab: "labels s' = (labels s)\<lparr>pose_labels := p\<rparr>" by simp
  from k1 obtain ms1 where ms1: "event_log s1 = event_log s @ ms1"
      "\<forall>m \<in> set ms1. \<exists>d. m = DroppedFrames d" by blast
  from k2 obtain ms2 where ms2: "event_log s' = event_log s1 @ ms2"
      "\<forall>m \<in> set ms2. \<exists>d. m = DroppedFrames d" by blast
  have "event_log s' = event_log s @ (ms1 @ ms2)" using ms1 ms2 by simp
  moreover have "\<forall>m \<in> set (ms1 @ ms2). \<exists>d. m = DroppedFrames d" using ms1 ms2 by auto
  ultimately have lg: "\<exists>ms. event_log s' = event_log s @ ms \<and> (\<forall>m \<in> set ms. \<exists>d. m = DroppedFrames d)"
    by blast
  from k1 k2 lab lg show ?case by simp
qed

lemma for_frames_later:
  assumes "frames = f0 # fs" and "\<forall>g \<in> set rest. \<not> eq g f0"
    and "for_frames eq frames now s rest = Inr s'"
  shows "frame_drops s' = frame_drops s
     \<and> total_frames_received s' = total_frames_received s + int (length rest)
     \<and> last_frame_count s' = (if rest = [] then last_frame_count s else frame_count (last rest))"
  using assms(2,3)
proof (induction rest arbitrary: s)
  case Nil
  then show ?case by simp
next
  case (Cons g rest)
  from process_frame_counters [OF assms(1), of eq now s g]
  obtain s1 where s1: "process_frame eq frames now s g = Inr s1"
    and c: "total_frames_received s1 = total_frames_received s + 1"
      "last_frame_count s1 = frame_count g"
      "frame_drops s1 = frame_drops s +
          (if last_frame_count s > 0 \<and> eq g f0 \<and> frame_count g > last_frame_count s + 1
           then frame_count g - (last_frame_count s + 1) else 0)"
    by blast
  from Cons.prems(1) have ng: "\<not> eq g f0" and later: "\<forall>g \<in> set rest. \<not> eq g f0" by simp_all
  from s1 Cons.prems(2) have run: "for_frames eq frames now s1 rest = Inr s'" by simp
  from Cons.IH [OF later run] c ng show ?case by simp
qed

lemma for_frames_same_time:
  assumes "frames = f0 # fs" and "last_frame_time s = now"
    and "for_frames eq frames now s rest = Inr s'"
  shows "frame_rate_samples s' = frame_rate_samples s \<and> last_frame_time s' = now"
  using assms(2,3)
proof (induction rest arbitrary: s)
  case Nil
  then show ?case by simp
next
  case (Cons g rest)
  from process_frame_counters [OF assms(1), of eq now s g]
  obtain s1 where s1: "process_frame eq frames now s g = Inr s1"
    and c: "last_frame_time s1 = now"
      "frame_rate_samples s1 =
          (if last_frame_time s > 0 \<and> now - last_frame_time s > 0
           then (if length (frame_rate_samples s) \<ge> 10
                 then tl (frame_rate_samples s @ [1 / (now - last_frame_time s)])
                 else frame_rate_samples s @ [1 / (now - last_frame_time s)])
           else frame_rate_samples s)"
    by blast
  from s1 Cons.prems(2) have run: "for_frames eq frames now s1 rest = Inr s'" by simp
  from Cons.IH [OF c(1) run] c(2) Cons.prems(1) show ?case by simp
qed

section \<open>What one tick changes\<close>

lemma viewer_log_eq:
  "viewer_log s m = s\<lparr>event_log := (if log_paused s then event_log s else event_log s @ [m])\<rparr>"
  by (simp add: viewer_log_def)

lemma conn_events_fold:
  "\<exists>ms. foldl conn_event_step s evs = s\<lparr>event_log := event_log s @ ms\<rparr>
       \<and> (\<forall>m \<in> set ms. m = QuestDisconnected \<or> (\<exists>ip. m = QuestConnectedFrom ip))"
proof (induction evs arbitrary: s)
  case Nil
  have "s = s\<lparr>event_log := event_log s @ []\<rparr>" by simp
  then show ?case by (metis foldl_Nil empty_iff list.set(1))
next
  case (Cons ev evs)
  have "\<exists>m1. conn_event_step s ev = s\<lparr>event_log := event_log s @ m1\<rparr>
       \<and> (\<forall>m \<in> set m1. m = QuestDisconnected \<or> (\<exists>ip. m = QuestConnectedFrom ip))"
  proof (cases ev)
    case (kConnected ip)
    show ?thesis
    proof (cases "log_paused s")
      case True
      then have "conn_event_step s ev = s\<lparr>event_log := event_log s @ []\<rparr>"
        using kConnected by (simp add: conn_event_step_def viewer_log_eq)
      then show ?thesis by (metis empty_iff list.set(1))
    next
      case False
      then have "conn_event_step s ev = s\<lparr>event_log := event_log s @ [QuestConnectedFrom ip]\<rparr>"
        using kConnected by (simp add: conn_event_step_def viewer_log_eq)
      moreover have "\<forall>m \<in> set [QuestConnectedFrom ip]. m = QuestDisconnected \<or> (\<exists>ip. m = QuestConnectedFrom ip)"
        by simp
      ultimately show ?thesis by blast
    qed
  next
    case kDisconnected
    show ?thesis
    proof (cases "log_paused s")
      case True
      then have "conn_event_step s ev = s\<lparr>event_log := event_log s @ []\<rparr>"
        using kDisconnected by (simp add: conn_event_step_def viewer_log_eq)
      then show ?thesis by (metis empty_iff list.set(1))
    next
      case False
      then have "conn_event_step s ev = s\<lparr>event_log := event_log s @ [QuestDisconnected]\<rparr>"
        using kDisconnected by (simp add: conn_event_step_def viewer_log_eq)
      moreover have "\<forall>m \<in> set [QuestDisconnected]. m = QuestDisconnected \<or> (\<exists>ip. m = QuestConnectedFrom ip)"
        by simp
      ultimately show ?thesis by blast
    qed
  next
    case kOther
    then have "conn_event_step s ev = s\<lparr>event_log := event_log s @ []\<rparr>"
      by (simp add: conn_event_step_def)
    then show ?thesis by (metis empty_iff list.set(1))
  qed
  then obtain m1 where m1: "conn_event_step s ev = s\<lparr>event_log := event_log s @ m1\<rparr>"
    "\<forall>m \<in> set m1. m = QuestDisconnected \<or> (\<exists>ip. m = QuestConnectedFrom ip)" by blast
  from Cons.IH [of "conn_event_step s ev"]
  obtain m2 where m2: "foldl conn_event_step (conn_event_step s ev) evs
       = (conn_event_step s ev)\<lparr>event_log := event_log (conn_event_step s ev) @ m2\<rparr>"
    "\<forall>m \<in> set m2. m = QuestDisconnected \<or> (\<exists>ip. m = QuestConnectedFrom ip)" by blast
  have "foldl conn_event_step s (ev # evs) = s\<lparr>event_log := event_log s @ (m1 @ m2)\<rparr>"
    using m1(1) m2(1) by simp
  moreover have "\<forall>m \<in> set (m1 @ m2). m = QuestDisconnected \<or> (\<exists>ip. m = QuestConnectedFrom ip)"
    using m1(2) m2(2) by auto
  ultimately show ?case by blast
qed

lemma show_frame_rate_Inr:
  "show_frame_rate s =
     Inr (s\<lparr>labels := (labels s)\<lparr>frame_rate_label :=
            (if frame_rate_samples s = [] then frame_rate_label (labels s)
             else Some (mean (frame_rate_samples s)))\<rparr>\<rparr>)"
  by (simp add: show_frame_rate_def py_truediv_def mean_def)



lemma show_status_keeps:
  "frame_drops (show_status s i) = frame_drops s"
  "last_frame_count (show_status s i) = last_frame_count s"
  "total_frames_received (show_status s i) = total_frames_received s"
  "frame_rate_samples (show_status s i) = frame_rate_samples s"
  "last_frame_time (show_status s i) = last_frame_time s"
  "log_paused (show_status s i) = log_paused s"
  "running (show_status s i) = running s"
  "start_time (show_status s i) = start_time s"
  "set_pose_calls (show_status s i) = set_pose_calls s"
  "after_calls (show_status s i) = after_calls s"
  "was_connected (show_status s i) = was_connected s"
  "was_tracking (show_status s i) = was_tracking s"
  by (simp_all add: show_status_def show_stats_def
        show_tracking_lost_def show_frame_count_def show_latency_def show_battery_def
        show_tracking_def show_connected_def viewer_log_eq Let_def
      split: option.split)

lemma finish_tick_keeps:
  "frame_drops (finish_tick s i) = frame_drops s"
  "last_frame_count (finish_tick s i) = last_frame_count s"
  "total_frames_received (finish_tick s i) = total_frames_received s"
  "frame_rate_samples (finish_tick s i) = frame_rate_samples s"
  "last_frame_time (finish_tick s i) = last_frame_time s"
  "log_paused (finish_tick s i) = log_paused s"
  "running (finish_tick s i) = running s"
  "start_time (finish_tick s i) = start_time s"
  "set_pose_calls (finish_tick s i) = set_pose_calls s"
  "low_battery_warned (finish_tick s i) = low_battery_warned s"
  "after_calls (finish_tick s i) = Suc (after_calls s)"
  "was_connected (finish_tick s i) = Some (is_connected i)"
  "was_tracking (finish_tick s i) = Some (is_tracking i)"
  by (simp_all add: finish_tick_def show_uptime_def log_connection_changes_def
        log_tracking_changes_def viewer_log_eq Let_def
      split: option.split)


lemma show_status_effects:
  "low_battery_warned (show_status s i) =
     (case get_battery_percent i of None \<Rightarrow> low_battery_warned s
      | Some b \<Rightarrow> low_battery_warned s \<or> b < 20)"
  "event_log (show_status s i) = event_log s @
     (case get_battery_percent i of None \<Rightarrow> []
      | Some b \<Rightarrow> if b < 20 \<and> \<not> low_battery_warned s \<and> \<not> log_paused s
                  then [LowBattery b] else [])"
  "tracking_lost_label (labels (show_status s i)) =
     (case get_tracking_lost_counter i of None \<Rightarrow> tracking_lost_label (labels s)
      | Some n \<Rightarrow> n)"
  "batt_label (labels (show_status s i)) =
     (case get_battery_percent i of None \<Rightarrow> batt_label (labels s) | Some b \<Rightarrow> Some b)"
  "frame_count_label (labels (show_status s i)) =
     (case get_frame_count i of None \<Rightarrow> frame_count_label (labels s) | Some n \<Rightarrow> n)"
  "frame_rate_label (labels (show_status s i)) = frame_rate_label (labels s)"
  by (cases "get_battery_percent i"; cases "get_frame_count i";
      cases "get_tracking_lost_counter i";
      auto simp: show_status_def show_stats_def
        show_tracking_lost_def show_frame_count_def show_latency_def show_battery_def
        show_tracking_def show_connected_def viewer_log_eq Let_def)+

lemma finish_tick_effects:
  "event_log (finish_tick s i) = event_log s @
     (if log_paused s then []
      else spec_edge_events ConnStarted ConnLost (was_connected s) [is_connected i]
         @ spec_edge_events TrackingStarted TrackingLost (was_tracking s) [is_tracking i])"
  "tracking_lost_label (labels (finish_tick s i)) = tracking_lost_label (labels s)"
  "batt_label (labels (finish_tick s i)) = batt_label (labels s)"
  "frame_count_label (labels (finish_tick s i)) = frame_count_label (labels s)"
  "frame_rate_label (labels (finish_tick s i)) = frame_rate_label (labels s)"
  by (simp_all add: finish_tick_def show_uptime_def log_connection_changes_def
        log_tracking_changes_def viewer_log_eq Let_def
      split: option.split)

lemma for_frames_returns: "\<exists>s'. for_frames eq frames now s frames = Inr s'"
proof (cases frames)
  case Nil
  then show ?thesis by simp
next
  case (Cons f0 fs)
  then show ?thesis by (rule for_frames_total)
qed

lemma update_loop_stopped: "\<not> running s \<Longrightarrow> update_loop eq s i = Inr s"
  by (simp add: update_loop_def)

lemma update_loop_running:
  assumes "running s"
    and "for_frames eq (get_all_unread_pose_frames i) (time_now i)
           (foldl conn_event_step s (readQueue i)) (get_all_unread_pose_frames i) = Inr s2"
  shows "update_loop eq s i =
           Inr (finish_tick (projr (show_frame_rate (show_status s2 i))) i)"
  using assms by (simp add: update_loop_def Let_def show_frame_rate_Inr)

lemma update_loop_returns: "\<exists>s'. update_loop eq s i = Inr s'"
proof (cases "running s")
  case False
  then show ?thesis by (simp add: update_loop_stopped)
next
  case True
  from for_frames_returns obtain s2 where
    "for_frames eq (get_all_unread_pose_frames i) (time_now i)
       (foldl conn_event_step s (readQueue i)) (get_all_unread_pose_frames i) = Inr s2"
    by blast
  from update_loop_running [OF True this] show ?thesis by blast
qed

lemma run_ticks_returns: "\<exists>s'. run_ticks eq s ticks = Inr s'"
proof (induction ticks arbitrary: s)
  case Nil
  show ?case by simp
next
  case (Cons i ticks)
  from update_loop_returns obtain s1 where "update_loop eq s i = Inr s1" by blast
  with Cons [of s1] show ?case by simp
qed

lemma run_ticks_invariant:
  assumes "P s" and "\<And>s i s'. P s \<Longrightarrow> update_loop eq s i = Inr s' \<Longrightarrow> P s'"
    and "run_ticks eq s ticks = Inr s'"
  shows "P s'"
  using assms(1,3)
proof (induction ticks arbitrary: s)
  case Nil
  then show ?case by simp
next
  case (Cons i ticks)
  from update_loop_returns obtain s1 where s1: "update_loop eq s i = Inr s1" by blast
  from assms(2) [OF Cons.prems(1) s1] have "P s1" .
  moreover from s1 Cons.prems(2) have "run_ticks eq s1 ticks = Inr s'" by simp
  ultimately show ?case by (rule Cons.IH)
qed

lemma tick_decompose:
  assumes "running s" and "update_loop eq s i = Inr s'"
  shows "\<exists>s2. for_frames eq (get_all_unread_pose_frames i) (time_now i)
                (foldl conn_event_step s (readQueue i)) (get_all_unread_pose_frames i) = Inr s2
            \<and> s' = finish_tick (projr (show_frame_rate (show_status s2 i))) i"
proof -
  from for_frames_returns obtain s2 where s2:
    "for_frames eq (get_all_unread_pose_frames i) (time_now i)
       (foldl conn_event_step s (readQueue i)) (get_all_unread_pose_frames i) = Inr s2"
    by blast
  from update_loop_running [OF assms(1) s2] assms(2)
  have "s' = finish_tick (projr (show_frame_rate (show_status s2 i))) i" by simp
  with s2 show ?thesis by blast
qed

lemma conn_events_keeps:
  "frame_drops (foldl conn_event_step s evs) = frame_drops s"
  "last_frame_count (foldl conn_event_step s evs) = last_frame_count s"
  "total_frames_received (foldl conn_event_step s evs) = total_frames_received s"
  "frame_rate_samples (foldl conn_event_step s evs) = frame_rate_samples s"
  "last_frame_time (foldl conn_event_step s evs) = last_frame_time s"
  "log_paused (foldl conn_event_step s evs) = log_paused s"
  "running (foldl conn_event_step s evs) = running s"
  "start_time (foldl conn_event_step s evs) = start_time s"
  "set_pose_calls (foldl conn_event_step s evs) = set_pose_calls s"
  "after_calls (foldl conn_event_step s evs) = after_calls s"
  "was_connected (foldl conn_event_step s evs) = was_connected s"
  "was_tracking (foldl conn_event_step s evs) = was_tracking s"
  "low_battery_warned (foldl conn_event_step s evs) = low_battery_warned s"
  "labels (foldl conn_event_step s evs) = labels s"
proof -
  from conn_events_fold [of s evs] obtain ms where
    e: "foldl conn_event_step s evs = s\<lparr>event_log := event_log s @ ms\<rparr>" by blast
  show "frame_drops (foldl conn_event_step s evs) = frame_drops s" by (simp add: e)
  show "last_frame_count (foldl conn_event_step s evs) = last_frame_count s" by (simp add: e)
  show "total_frames_received (foldl conn_event_step s evs) = total_frames_received s" by (simp add: e)
  show "frame_rate_samples (foldl conn_event_step s evs) = frame_rate_samples s" by (simp add: e)
  show "last_frame_time (foldl conn_event_step s evs) = last_frame_time s" by (simp add: e)
  show "log_paused (foldl conn_event_step s evs) = log_paused s" by (simp add: e)
  show "running (foldl conn_event_step s evs) = running s" by (simp add: e)
  show "start_time (foldl conn_event_step s evs) = start_time s" by (simp add: e)
  show "set_pose_calls (foldl conn_event_step s evs) = set_pose_calls s" by (simp add: e)
  show "after_calls (foldl conn_event_step s evs) = after_calls s" by (simp add: e)
  show "was_connected (foldl conn_event_step s evs) = was_connected s" by (simp add: e)
  show "was_tracking (foldl conn_event_step s evs) = was_tracking s" by (simp add: e)
  show "low_battery_warned (foldl conn_event_step s evs) = low_battery_warned s" by (simp add: e)
  show "labels (foldl conn_event_step s evs) = labels s" by (simp add: e)
qed

lemma for_frames_labels:
  assumes "for_frames eq frames now s frames = Inr s2"
  shows "\<exists>p. labels s2 = (labels s)\<lparr>pose_labels := p\<rparr>"
proof (cases frames)
  case Nil
  with assms have "s2 = s" by simp
  moreover have "labels s = (labels s)\<lparr>pose_labels := pose_labels (labels s)\<rparr>" by simp
  ultimately show ?thesis by metis
next
  case (Cons f0 fs)
  from for_frames_keeps [OF Cons assms] show ?thesis by blast
qed

lemma tick_front_keeps:
  assumes "for_frames eq frames now (foldl conn_event_step s evs) frames = Inr s2"
  shows "log_paused s2 = log_paused s" "running s2 = running s"
    "was_connected s2 = was_connected s" "was_tracking s2 = was_tracking s"
    "low_battery_warned s2 = low_battery_warned s" "start_time s2 = start_time s"
    "after_calls s2 = after_calls s" "set_pose_calls s2 = set_pose_calls s"
proof -
  have "log_paused s2 = log_paused s \<and> running s2 = running s
     \<and> was_connected s2 = was_connected s \<and> was_tracking s2 = was_tracking s
     \<and> low_battery_warned s2 = low_battery_warned s \<and> start_time s2 = start_time s
     \<and> after_calls s2 = after_calls s \<and> set_pose_calls s2 = set_pose_calls s"
  proof (cases frames)
    case Nil
    with assms have "s2 = foldl conn_event_step s evs" by simp
    then show ?thesis by (simp add: conn_events_keeps)
  next
    case (Cons f0 fs)
    from for_frames_keeps [OF Cons assms] show ?thesis by (simp add: conn_events_keeps)
  qed
  then show "log_paused s2 = log_paused s" "running s2 = running s"
    "was_connected s2 = was_connected s" "was_tracking s2 = was_tracking s"
    "low_battery_warned s2 = low_battery_warned s" "start_time s2 = start_time s"
    "after_calls s2 = after_calls s" "set_pose_calls s2 = set_pose_calls s"
    by simp_all
qed

lemma tick_front_empty:
  assumes "for_frames eq [] now (foldl conn_event_step s evs) [] = Inr s2"
  shows "total_frames_received s2 = total_frames_received s"
    "frame_drops s2 = frame_drops s" "frame_rate_samples s2 = frame_rate_samples s"
    "last_frame_count s2 = last_frame_count s" "last_frame_time s2 = last_frame_time s"
proof -
  from assms have "s2 = foldl conn_event_step s evs" by simp
  then show "total_frames_received s2 = total_frames_received s"
    "frame_drops s2 = frame_drops s" "frame_rate_samples s2 = frame_rate_samples s"
    "last_frame_count s2 = last_frame_count s" "last_frame_time s2 = last_frame_time s"
    by (simp_all add: conn_events_keeps)
qed

lemmas tick_simps = show_frame_rate_Inr show_status_keeps finish_tick_keeps
  show_status_effects finish_tick_effects conn_events_keeps

section \<open>A tick on returned values completes\<close>

lemma tick_on_values_completes:
  "\<exists>s'. update_loop eq s i = Inr s'
     \<and> (if running s then after_calls s' = Suc (after_calls s) else s' = s)
     \<and> (get_all_unread_pose_frames i = [] \<longrightarrow>
          total_frames_received s' = total_frames_received s
          \<and> frame_drops s' = frame_drops s
          \<and> frame_rate_samples s' = frame_rate_samples s)
     \<and> (get_battery_percent i = None \<longrightarrow> batt_label (labels s') = batt_label (labels s))
     \<and> (get_frame_count i = None \<longrightarrow>
          frame_count_label (labels s') = frame_count_label (labels s))
     \<and> (get_tracking_lost_counter i = None \<longrightarrow>
          tracking_lost_label (labels s') = tracking_lost_label (labels s))"
proof (cases "running s")
  case False
  then show ?thesis by (simp add: update_loop_stopped)
next
  case True
  from update_loop_returns obtain s' where s': "update_loop eq s i = Inr s'" by blast
  from tick_decompose [OF True s'] obtain s2 where
    s2: "for_frames eq (get_all_unread_pose_frames i) (time_now i)
           (foldl conn_event_step s (readQueue i)) (get_all_unread_pose_frames i) = Inr s2"
    and fin: "s' = finish_tick (projr (show_frame_rate (show_status s2 i))) i"
    by blast
  from for_frames_labels [OF s2] obtain p where
    lab: "labels s2 = (labels s)\<lparr>pose_labels := p\<rparr>" by (auto simp: conn_events_keeps)
  have calls: "after_calls s' = Suc (after_calls s)"
    by (simp add: fin tick_simps tick_front_keeps [OF s2])
  have empty: "get_all_unread_pose_frames i = [] \<longrightarrow>
          total_frames_received s' = total_frames_received s
          \<and> frame_drops s' = frame_drops s
          \<and> frame_rate_samples s' = frame_rate_samples s"
  proof
    assume "get_all_unread_pose_frames i = []"
    with s2 have "for_frames eq [] (time_now i) (foldl conn_event_step s (readQueue i)) [] = Inr s2"
      by simp
    from tick_front_empty [OF this] show "total_frames_received s' = total_frames_received s
          \<and> frame_drops s' = frame_drops s
          \<and> frame_rate_samples s' = frame_rate_samples s"
      by (simp add: fin tick_simps)
  qed
  have batt: "get_battery_percent i = None \<longrightarrow> batt_label (labels s') = batt_label (labels s)"
    by (simp add: fin tick_simps lab)
  have fc: "get_frame_count i = None \<longrightarrow>
          frame_count_label (labels s') = frame_count_label (labels s)"
    by (simp add: fin tick_simps lab)
  have tl: "get_tracking_lost_counter i = None \<longrightarrow>
          tracking_lost_label (labels s') = tracking_lost_label (labels s)"
    by (simp add: fin tick_simps lab)
  from s' True calls empty batt fc tl show ?thesis by simp
qed

section \<open>Evaluating a run on concrete inputs\<close>

lemmas eval_defs = observe_def init_viewer_def init_display_def tick_at_def frame_at_def
  origin_pose_def update_loop_def process_frame_def drop_check_def rate_step_def
  push_sample_def py_index0_def py_pop0_def py_truediv_def viewer_log_def
  show_status_def show_stats_def show_tracking_lost_def show_frame_count_def
  show_latency_def show_battery_def show_tracking_def show_connected_def
  show_frame_rate_def show_uptime_def log_connection_changes_def log_tracking_changes_def
  finish_tick_def conn_event_step_def py_int_def Let_def

section \<open>The counters of the frame loop\<close>

lemma tick_keeps:
  assumes "update_loop eq s i = Inr s'"
  shows "running s' = running s" "log_paused s' = log_paused s" "start_time s' = start_time s"
    "set_pose_calls s' = set_pose_calls s"
proof -
  have "running s' = running s \<and> log_paused s' = log_paused s \<and> start_time s' = start_time s
      \<and> set_pose_calls s' = set_pose_calls s"
  proof (cases "running s")
    case False
    with assms show ?thesis by (simp add: update_loop_stopped)
  next
    case True
    from tick_decompose [OF True assms] obtain s2 where
      s2: "for_frames eq (get_all_unread_pose_frames i) (time_now i)
             (foldl conn_event_step s (readQueue i)) (get_all_unread_pose_frames i) = Inr s2"
      and fin: "s' = finish_tick (projr (show_frame_rate (show_status s2 i))) i"
      by blast
    show ?thesis by (simp add: fin tick_simps tick_front_keeps [OF s2])
  qed
  then show "running s' = running s" "log_paused s' = log_paused s"
    "start_time s' = start_time s" "set_pose_calls s' = set_pose_calls s"
    by simp_all
qed

lemma run_ticks_stopped: "\<not> running s \<Longrightarrow> run_ticks eq s ticks = Inr s"
  by (induction ticks) (simp_all add: update_loop_stopped)

text \<open>The counters after the frame loop and after the tick are the same.\<close>

lemma tick_counters_from_loop:
  assumes "running s" and "update_loop eq s i = Inr s'"
  shows "\<exists>s2. for_frames eq (get_all_unread_pose_frames i) (time_now i)
                (foldl conn_event_step s (readQueue i)) (get_all_unread_pose_frames i) = Inr s2
     \<and> frame_drops s' = frame_drops s2 \<and> last_frame_count s' = last_frame_count s2
     \<and> total_frames_received s' = total_frames_received s2
     \<and> frame_rate_samples s' = frame_rate_samples s2
     \<and> last_frame_time s' = last_frame_time s2"
proof -
  from tick_decompose [OF assms] obtain s2 where
    s2: "for_frames eq (get_all_unread_pose_frames i) (time_now i)
           (foldl conn_event_step s (readQueue i)) (get_all_unread_pose_frames i) = Inr s2"
    and fin: "s' = finish_tick (projr (show_frame_rate (show_status s2 i))) i"
    by blast
  have "frame_drops s' = frame_drops s2 \<and> last_frame_count s' = last_frame_count s2
     \<and> total_frames_received s' = total_frames_received s2
     \<and> frame_rate_samples s' = frame_rate_samples s2
     \<and> last_frame_time s' = last_frame_time s2"
    by (simp add: fin tick_simps)
  with s2 show ?thesis by blast
qed

lemma batch_first_only:
  assumes "frames = f0 # fs" and "\<forall>g \<in> set fs. \<not> eq g f0"
    and "for_frames eq frames now s frames = Inr s2"
  shows "frame_drops s2 = frame_drops s +
           (if last_frame_count s > 0 \<and> eq f0 f0 \<and> frame_count f0 > last_frame_count s + 1
            then frame_count f0 - (last_frame_count s + 1) else 0)
     \<and> last_frame_count s2 = frame_count (last frames)
     \<and> total_frames_received s2 = total_frames_received s + int (length frames)"
proof -
  from process_frame_counters [OF assms(1), of eq now s f0]
  obtain s1 where s1: "process_frame eq frames now s f0 = Inr s1"
    and c: "total_frames_received s1 = total_frames_received s + 1"
      "last_frame_count s1 = frame_count f0"
      "frame_drops s1 = frame_drops s +
          (if last_frame_count s > 0 \<and> eq f0 f0 \<and> frame_count f0 > last_frame_count s + 1
           then frame_count f0 - (last_frame_count s + 1) else 0)"
    by blast
  from assms(3) s1 have run: "for_frames eq frames now s1 fs = Inr s2"
    by (simp add: assms(1))
  from for_frames_later [OF assms(1) assms(2) run] c show ?thesis
    by (simp add: assms(1))
qed

lemma tick_batch:
  assumes "running s" and "get_all_unread_pose_frames i = f0 # fs"
    and "\<forall>g \<in> set fs. \<not> eq g f0"
  shows "\<exists>s'. update_loop eq s i = Inr s'
     \<and> frame_drops s' = frame_drops s +
           (if last_frame_count s > 0 \<and> eq f0 f0 \<and> frame_count f0 > last_frame_count s + 1
            then frame_count f0 - (last_frame_count s + 1) else 0)
     \<and> last_frame_count s' = frame_count (last (f0 # fs))
     \<and> total_frames_received s' = total_frames_received s + int (length (f0 # fs))"
proof -
  from update_loop_returns obtain s' where s': "update_loop eq s i = Inr s'" by blast
  from tick_counters_from_loop [OF assms(1) s'] obtain s2 where
    s2: "for_frames eq (f0 # fs) (time_now i)
           (foldl conn_event_step s (readQueue i)) (f0 # fs) = Inr s2"
    and eqs: "frame_drops s' = frame_drops s2" "last_frame_count s' = last_frame_count s2"
      "total_frames_received s' = total_frames_received s2"
    by (auto simp: assms(2))
  from batch_first_only [where eq = eq, OF refl assms(3) s2] eqs s' show ?thesis
    by (simp add: conn_events_keeps)
qed

section \<open>C1: the drop check of a batch\<close>

text \<open>
  Claim C1, as amended. Take a tick of the running viewer whose batch is not empty and in
  which no later frame compares equal (\<^verbatim>\<open>==\<close>) to the first one, the first being
  equal to itself. Then the drop check takes effect once, against the first frame: when
  \<^verbatim>\<open>last_frame_count\<close> is positive and the first frame's count exceeds
  \<^verbatim>\<open>last_frame_count + 1\<close>, \<^verbatim>\<open>frame_drops\<close> grows by exactly the difference;
  otherwise (no positive reference, or a count not above the expected one) it is unchanged.
  Every frame is processed (\<^verbatim>\<open>total_frames_received\<close> grows by the length of the
  batch) and \<^verbatim>\<open>last_frame_count\<close> ends as the count of the last frame.
\<close>

theorem drop_check_once_per_batch:
  assumes "running s" and "get_all_unread_pose_frames i = f0 # fs"
    and "eq f0 f0" and "\<forall>g \<in> set fs. \<not> eq g f0"
  shows "\<exists>s'. update_loop eq s i = Inr s'
     \<and> frame_drops s' = frame_drops s +
           (if last_frame_count s > 0 \<and> frame_count f0 > last_frame_count s + 1
            then frame_count f0 - (last_frame_count s + 1) else 0)
     \<and> last_frame_count s' = frame_count (last (f0 # fs))
     \<and> total_frames_received s' = total_frames_received s + int (length (f0 # fs))"
  using tick_batch [where eq = eq, OF assms(1,2,4)] assms(3) by simp

text \<open>The third batch of the scenario of the specification: after frames 1 to 6, the
  batch 10, 11 adds 3 drops.\<close>

theorem drop_check_once_per_batch_witness:
  "observe frame_drops
     (update_loop (=) ((init_viewer 0)\<lparr>last_frame_count := 6, total_frames_received := 6\<rparr>)
        (tick_at 3 [frame_at 10, frame_at 11] True True)) = Some 3
   \<and> observe last_frame_count
     (update_loop (=) ((init_viewer 0)\<lparr>last_frame_count := 6, total_frames_received := 6\<rparr>)
        (tick_at 3 [frame_at 10, frame_at 11] True True)) = Some 11
   \<and> observe total_frames_received
     (update_loop (=) ((init_viewer 0)\<lparr>last_frame_count := 6, total_frames_received := 6\<rparr>)
        (tick_at 3 [frame_at 10, frame_at 11] True True)) = Some 8"
proof -
  have r: "running ((init_viewer 0)\<lparr>last_frame_count := 6, total_frames_received := 6\<rparr>)"
    by (simp add: init_viewer_def)
  have f: "get_all_unread_pose_frames (tick_at 3 [frame_at 10, frame_at 11] True True)
             = frame_at 10 # [frame_at 11]"
    by (simp add: tick_at_def)
  have e: "frame_at 10 = frame_at 10" by simp
  have n: "\<forall>g \<in> set [frame_at 11]. \<not> g = frame_at 10" by (simp add: frame_at_def)
  from drop_check_once_per_batch [where eq = "(=)", OF r f e n]
  show ?thesis by (auto simp: observe_def init_viewer_def frame_at_def)
qed

text \<open>
  The claim as first stated fails after a frame whose count is 0: a frame has been seen,
  the next batch starts at 5, the expected count is 1, and no drop is counted.
\<close>

theorem sequence_zero_counterexample:
  "observe total_frames_received
     (run_ticks (=) (init_viewer 0) [tick_at 1 [frame_at 0] True True]) = Some 1
   \<and> observe last_frame_count
     (run_ticks (=) (init_viewer 0) [tick_at 1 [frame_at 0] True True]) = Some 0
   \<and> observe frame_drops
     (run_ticks (=) (init_viewer 0) [tick_at 1 [frame_at 0] True True]) = Some 0
   \<and> observe frame_drops
     (run_ticks (=) (init_viewer 0)
        [tick_at 1 [frame_at 0] True True, tick_at 2 [frame_at 5] True True]) = Some 0"
  by (simp add: eval_defs)

section \<open>C9: no drop check without a positive reference\<close>









section \<open>C5: a stream without gaps counts no drop\<close>

lemma consecutive_tl: "consecutive (x # xs) \<Longrightarrow> consecutive xs"
  by (cases xs) simp_all

lemma for_frames_gapless:
  assumes "frames = f0 # fs"
    and "consecutive (last_frame_count s # map frame_count rest @ later)
         \<or> (last_frame_count s \<le> 0 \<and> consecutive (map frame_count rest @ later))"
    and "for_frames eq frames now s rest = Inr s'"
  shows "frame_drops s' = frame_drops s
     \<and> (consecutive (last_frame_count s' # later)
          \<or> (last_frame_count s' \<le> 0 \<and> consecutive later))"
  using assms(2,3)
proof (induction rest arbitrary: s)
  case Nil
  then show ?case by simp
next
  case (Cons g rest)
  from process_frame_counters [OF assms(1), of eq now s g]
  obtain s1 where s1: "process_frame eq frames now s g = Inr s1"
    and c: "last_frame_count s1 = frame_count g"
      "frame_drops s1 = frame_drops s +
          (if last_frame_count s > 0 \<and> eq g f0 \<and> frame_count g > last_frame_count s + 1
           then frame_count g - (last_frame_count s + 1) else 0)"
    by blast
  from Cons.prems(1) have nodrop: "\<not> (last_frame_count s > 0 \<and> frame_count g > last_frame_count s + 1)"
    by auto
  from Cons.prems(1) have "consecutive (frame_count g # map frame_count rest @ later)"
    by auto
  then have inv: "consecutive (last_frame_count s1 # map frame_count rest @ later)
         \<or> (last_frame_count s1 \<le> 0 \<and> consecutive (map frame_count rest @ later))"
    by (simp add: c(1))
  from s1 Cons.prems(2) have run: "for_frames eq frames now s1 rest = Inr s'" by simp
  from Cons.IH [OF inv run] c(2) nodrop show ?case by auto
qed

lemma tick_gapless:
  assumes "running s"
    and "consecutive (last_frame_count s # map frame_count (get_all_unread_pose_frames i) @ later)
         \<or> (last_frame_count s \<le> 0
             \<and> consecutive (map frame_count (get_all_unread_pose_frames i) @ later))"
    and "update_loop eq s i = Inr s'"
  shows "frame_drops s' = frame_drops s
     \<and> (consecutive (last_frame_count s' # later)
          \<or> (last_frame_count s' \<le> 0 \<and> consecutive later))"
proof -
  from tick_counters_from_loop [OF assms(1,3)] obtain s2 where
    s2: "for_frames eq (get_all_unread_pose_frames i) (time_now i)
           (foldl conn_event_step s (readQueue i)) (get_all_unread_pose_frames i) = Inr s2"
    and eqs: "frame_drops s' = frame_drops s2" "last_frame_count s' = last_frame_count s2"
    by blast
  show ?thesis
  proof (cases "get_all_unread_pose_frames i")
    case Nil
    with s2 have "s2 = foldl conn_event_step s (readQueue i)" by simp
    with assms(2) eqs Nil show ?thesis by (simp add: conn_events_keeps)
  next
    case (Cons f0 fs)
    have inv: "consecutive (last_frame_count (foldl conn_event_step s (readQueue i))
                 # map frame_count (get_all_unread_pose_frames i) @ later)
         \<or> (last_frame_count (foldl conn_event_step s (readQueue i)) \<le> 0
             \<and> consecutive (map frame_count (get_all_unread_pose_frames i) @ later))"
      using assms(2) by (simp add: conn_events_keeps)
    from for_frames_gapless [where eq = eq, OF Cons inv s2] eqs show ?thesis
      by (simp add: conn_events_keeps)
  qed
qed

lemma run_gapless:
  assumes "consecutive (last_frame_count s
             # map frame_count (concat (map get_all_unread_pose_frames ticks)))
         \<or> (last_frame_count s \<le> 0
             \<and> consecutive (map frame_count (concat (map get_all_unread_pose_frames ticks))))"
    and "run_ticks eq s ticks = Inr s'"
  shows "frame_drops s' = frame_drops s"
proof (cases "running s")
  case False
  with assms(2) show ?thesis by (simp add: run_ticks_stopped)
next
  case True
  then show ?thesis using assms
  proof (induction ticks arbitrary: s)
    case Nil
    then show ?case by simp
  next
    case (Cons i ticks)
    from update_loop_returns obtain s1 where s1: "update_loop eq s i = Inr s1" by blast
    from Cons.prems(2)
    have inv: "consecutive (last_frame_count s # map frame_count (get_all_unread_pose_frames i)
                 @ map frame_count (concat (map get_all_unread_pose_frames ticks)))
         \<or> (last_frame_count s \<le> 0
             \<and> consecutive (map frame_count (get_all_unread_pose_frames i)
                 @ map frame_count (concat (map get_all_unread_pose_frames ticks))))"
      by simp
    from tick_gapless [OF Cons.prems(1) inv s1]
    have d: "frame_drops s1 = frame_drops s"
      and inv1: "consecutive (last_frame_count s1
                   # map frame_count (concat (map get_all_unread_pose_frames ticks)))
         \<or> (last_frame_count s1 \<le> 0
             \<and> consecutive (map frame_count (concat (map get_all_unread_pose_frames ticks))))"
      by simp_all
    from tick_keeps(1) [OF s1] Cons.prems(1) have r1: "running s1" by simp
    from s1 Cons.prems(3) have run: "run_ticks eq s1 ticks = Inr s'" by simp
    from Cons.IH [OF r1 inv1 run] d show ?case by simp
  qed
qed

text \<open>
  Claim C5, as amended. For every stream of frames whose sequence numbers go up by exactly
  one from each frame to the next, across all batches and ticks from the start of the
  viewer, \<^verbatim>\<open>frame_drops\<close> remains 0.
\<close>

theorem consecutive_stream_no_drops:
  assumes "consecutive (map frame_count (concat (map get_all_unread_pose_frames ticks)))"
  shows "observe frame_drops (run_ticks eq (init_viewer t0) ticks) = Some 0"
proof -
  from run_ticks_returns obtain s' where s': "run_ticks eq (init_viewer t0) ticks = Inr s'"
    by blast
  have inv: "consecutive (last_frame_count (init_viewer t0)
             # map frame_count (concat (map get_all_unread_pose_frames ticks)))
         \<or> (last_frame_count (init_viewer t0) \<le> 0
             \<and> consecutive (map frame_count (concat (map get_all_unread_pose_frames ticks))))"
    using assms by (simp add: init_viewer_def)
  from run_gapless [OF inv s'] have "frame_drops s' = 0" by (simp add: init_viewer_def)
  with s' show ?thesis by (simp add: observe_def)
qed

text \<open>The first two batches of the scenario of the specification: 1, 2, 3 and 4, 5, 6.\<close>

theorem consecutive_stream_no_drops_witness:
  "consecutive (map frame_count (concat (map get_all_unread_pose_frames
      [tick_at 1 [frame_at 1, frame_at 2, frame_at 3] True True,
       tick_at 2 [frame_at 4, frame_at 5, frame_at 6] True True])))
   \<and> observe frame_drops (run_ticks (=) (init_viewer 0)
      [tick_at 1 [frame_at 1, frame_at 2, frame_at 3] True True,
       tick_at 2 [frame_at 4, frame_at 5, frame_at 6] True True]) = Some 0"
proof -
  have c: "consecutive (map frame_count (concat (map get_all_unread_pose_frames
      [tick_at 1 [frame_at 1, frame_at 2, frame_at 3] True True,
       tick_at 2 [frame_at 4, frame_at 5, frame_at 6] True True])))"
    by (simp add: tick_at_def frame_at_def)
  from c consecutive_stream_no_drops [where eq = "(=)" and ?t0.0 = 0, OF c]
  show ?thesis by simp
qed

text \<open>
  The claim as first stated fails on a strictly increasing stream with a gap between two
  batches: after the batch 1, the batch 3 counts one drop.
\<close>

theorem increasing_stream_counterexample:
  "sorted_wrt (<) (map frame_count (concat (map get_all_unread_pose_frames
      [tick_at 1 [frame_at 1] True True, tick_at 2 [frame_at 3] True True])))
   \<and> observe frame_drops
     (run_ticks (=) (init_viewer 0)
        [tick_at 1 [frame_at 1] True True, tick_at 2 [frame_at 3] True True]) = Some 1"
  by (simp add: eval_defs)

section \<open>C8: at most one frame rate sample per tick\<close>

lemma batch_rate:
  assumes "frames = f0 # fs" and "for_frames eq frames now s frames = Inr s2"
  shows "last_frame_time s2 = now
     \<and> (if last_frame_time s > 0 \<and> now - last_frame_time s > 0
         then push_sample (frame_rate_samples s) (1 / (now - last_frame_time s))
                = Inr (frame_rate_samples s2)
         else frame_rate_samples s2 = frame_rate_samples s)"
proof -
  from process_frame_counters [OF assms(1), of eq now s f0]
  obtain s1 where s1: "process_frame eq frames now s f0 = Inr s1"
    and c: "last_frame_time s1 = now"
      "frame_rate_samples s1 =
          (if last_frame_time s > 0 \<and> now - last_frame_time s > 0
           then (if length (frame_rate_samples s) \<ge> 10
                 then tl (frame_rate_samples s @ [1 / (now - last_frame_time s)])
                 else frame_rate_samples s @ [1 / (now - last_frame_time s)])
           else frame_rate_samples s)"
    by blast
  from assms(2) s1 have run: "for_frames eq frames now s1 fs = Inr s2"
    by (simp add: assms(1))
  from for_frames_same_time [OF assms(1) c(1) run] c(2) show ?thesis
    by (simp add: push_sample_Inr)
qed

lemma tick_rate:
  assumes "running s" and "update_loop eq s i = Inr s'"
  shows "if get_all_unread_pose_frames i \<noteq> [] \<and> last_frame_time s > 0
            \<and> time_now i - last_frame_time s > 0
         then push_sample (frame_rate_samples s) (1 / (time_now i - last_frame_time s))
                = Inr (frame_rate_samples s')
         else frame_rate_samples s' = frame_rate_samples s"
    and "get_all_unread_pose_frames i \<noteq> [] \<Longrightarrow> last_frame_time s' = time_now i"
    and "get_all_unread_pose_frames i = [] \<Longrightarrow> last_frame_time s' = last_frame_time s"
proof -
  from tick_counters_from_loop [OF assms] obtain s2 where
    s2: "for_frames eq (get_all_unread_pose_frames i) (time_now i)
           (foldl conn_event_step s (readQueue i)) (get_all_unread_pose_frames i) = Inr s2"
    and eqs: "frame_rate_samples s' = frame_rate_samples s2"
      "last_frame_time s' = last_frame_time s2"
    by blast
  have "(if get_all_unread_pose_frames i \<noteq> [] \<and> last_frame_time s > 0
            \<and> time_now i - last_frame_time s > 0
         then push_sample (frame_rate_samples s) (1 / (time_now i - last_frame_time s))
                = Inr (frame_rate_samples s')
         else frame_rate_samples s' = frame_rate_samples s)
     \<and> (get_all_unread_pose_frames i \<noteq> [] \<longrightarrow> last_frame_time s' = time_now i)
     \<and> (get_all_unread_pose_frames i = [] \<longrightarrow> last_frame_time s' = last_frame_time s)"
  proof (cases "get_all_unread_pose_frames i")
    case Nil
    with s2 have "s2 = foldl conn_event_step s (readQueue i)" by simp
    with eqs Nil show ?thesis by (simp add: conn_events_keeps)
  next
    case (Cons f0 fs)
    from batch_rate [OF Cons s2, unfolded conn_events_keeps] eqs Cons show ?thesis
      by simp
  qed
  then show "if get_all_unread_pose_frames i \<noteq> [] \<and> last_frame_time s > 0
            \<and> time_now i - last_frame_time s > 0
         then push_sample (frame_rate_samples s) (1 / (time_now i - last_frame_time s))
                = Inr (frame_rate_samples s')
         else frame_rate_samples s' = frame_rate_samples s"
    and "get_all_unread_pose_frames i \<noteq> [] \<Longrightarrow> last_frame_time s' = time_now i"
    and "get_all_unread_pose_frames i = [] \<Longrightarrow> last_frame_time s' = last_frame_time s"
    by simp_all
qed

text \<open>
  Claim C8. Every frame of a batch is processed with the one \<^verbatim>\<open>current_time\<close> of
  the tick, which is what \<^verbatim>\<open>last_frame_time\<close> holds after a non-empty batch. So a tick
  of the running viewer pushes at most one sample, however many frames the batch has: the
  sample \<^verbatim>\<open>1 / dt\<close> of the first frame when the batch is not empty, a positive
  \<^verbatim>\<open>last_frame_time\<close> exists and \<^verbatim>\<open>dt\<close> is positive, and nothing otherwise (for
  the later frames \<^verbatim>\<open>dt\<close> is 0).
\<close>

theorem one_sample_per_tick:
  assumes "running s"
  shows "\<exists>s'. update_loop eq s i = Inr s'
     \<and> (if get_all_unread_pose_frames i \<noteq> [] \<and> last_frame_time s > 0
            \<and> time_now i - last_frame_time s > 0
         then push_sample (frame_rate_samples s) (1 / (time_now i - last_frame_time s))
                = Inr (frame_rate_samples s')
         else frame_rate_samples s' = frame_rate_samples s)
     \<and> length (frame_rate_samples s') \<le> length (frame_rate_samples s) + 1
     \<and> (if get_all_unread_pose_frames i \<noteq> [] then last_frame_time s' = time_now i
         else last_frame_time s' = last_frame_time s)"
proof -
  from update_loop_returns obtain s' where s': "update_loop eq s i = Inr s'" by blast
  note r = tick_rate [OF assms s']
  have "length (frame_rate_samples s') \<le> length (frame_rate_samples s) + 1"
  proof (cases "get_all_unread_pose_frames i \<noteq> [] \<and> last_frame_time s > 0
            \<and> time_now i - last_frame_time s > 0")
    case True
    with r(1) have "push_sample (frame_rate_samples s) (1 / (time_now i - last_frame_time s))
                = Inr (frame_rate_samples s')" by simp
    then have "frame_rate_samples s' =
        (if length (frame_rate_samples s) \<ge> 10
         then tl (frame_rate_samples s @ [1 / (time_now i - last_frame_time s)])
         else frame_rate_samples s @ [1 / (time_now i - last_frame_time s)])"
      by (simp add: push_sample_Inr)
    then show ?thesis by simp
  next
    case False
    with r(1) have "frame_rate_samples s' = frame_rate_samples s" by simp
    then show ?thesis by simp
  qed
  with s' r show ?thesis by auto
qed

theorem one_sample_per_tick_witness:
  "observe frame_rate_samples
     (update_loop (=) ((init_viewer 0)\<lparr>last_frame_time := 1\<rparr>)
        (tick_at (3 / 2) [frame_at 1, frame_at 2, frame_at 3] True True)) = Some [2]
   \<and> observe last_frame_time
     (update_loop (=) ((init_viewer 0)\<lparr>last_frame_time := 1\<rparr>)
        (tick_at (3 / 2) [frame_at 1, frame_at 2, frame_at 3] True True)) = Some (3 / 2)"
proof -
  have r: "running ((init_viewer 0)\<lparr>last_frame_time := 1\<rparr>)"
    by (simp add: init_viewer_def)
  from one_sample_per_tick [where eq = "(=)", OF r,
    of "tick_at (3 / 2) [frame_at 1, frame_at 2, frame_at 3] True True"]
  show ?thesis
    by (auto simp: observe_def init_viewer_def tick_at_def push_sample_Inr)
qed

section \<open>C4: the rolling window of frame rates\<close>

lemma push_sample_fifo:
  "length xs = 10 \<Longrightarrow> push_sample xs v = Inr (tl xs @ [v])"
  "length xs < 10 \<Longrightarrow> push_sample xs v = Inr (xs @ [v])"
  by (cases xs; simp add: push_sample_Inr)+

lemma push_sample_bounded:
  assumes "push_sample xs v = Inr ys" and "length xs \<le> 10"
  shows "length ys \<le> 10 \<and> ys \<noteq> []"
  using assms by (cases xs) (auto simp: push_sample_Inr split: if_splits)

lemma tick_window:
  assumes "length (frame_rate_samples s) \<le> 10
     \<and> frame_rate_label (labels s) =
          (if frame_rate_samples s = [] then None else Some (mean (frame_rate_samples s)))"
    and "update_loop eq s i = Inr s'"
  shows "length (frame_rate_samples s') \<le> 10
     \<and> frame_rate_label (labels s') =
          (if frame_rate_samples s' = [] then None else Some (mean (frame_rate_samples s')))"
proof (cases "running s")
  case False
  with assms show ?thesis by (simp add: update_loop_stopped)
next
  case True
  from tick_decompose [OF True assms(2)] obtain s2 where
    s2: "for_frames eq (get_all_unread_pose_frames i) (time_now i)
           (foldl conn_event_step s (readQueue i)) (get_all_unread_pose_frames i) = Inr s2"
    and fin: "s' = finish_tick (projr (show_frame_rate (show_status s2 i))) i"
    by blast
  from for_frames_labels [OF s2] obtain p where
    lab: "labels s2 = (labels s)\<lparr>pose_labels := p\<rparr>" by (auto simp: conn_events_keeps)
  have same: "frame_rate_samples s' = frame_rate_samples s2" by (simp add: fin tick_simps)
  have label: "frame_rate_label (labels s') =
      (if frame_rate_samples s' = [] then frame_rate_label (labels s)
       else Some (mean (frame_rate_samples s')))"
    by (simp add: fin tick_simps lab)
  note r = tick_rate(1) [OF True assms(2)]
  show ?thesis
  proof (cases "get_all_unread_pose_frames i \<noteq> [] \<and> last_frame_time s > 0
            \<and> time_now i - last_frame_time s > 0")
    case True
    with r have "push_sample (frame_rate_samples s) (1 / (time_now i - last_frame_time s))
                = Inr (frame_rate_samples s')" by simp
    from push_sample_bounded [OF this] assms(1)
    have "length (frame_rate_samples s') \<le> 10 \<and> frame_rate_samples s' \<noteq> []" by simp
    with label show ?thesis by simp
  next
    case False
    with r have "frame_rate_samples s' = frame_rate_samples s" by simp
    with label assms(1) show ?thesis by simp
  qed
qed

text \<open>
  Claim C4. After any number of ticks from the start of the viewer the window holds at
  most 10 samples, and the frame rate label shows the arithmetic mean of the samples now
  in the window (\<open>mean\<close>, the sum over the number), being still the placeholder exactly
  when the window is empty. Pushing onto a window of 10 drops the oldest sample and
  appends the new one; pushing onto a shorter window appends.
\<close>

theorem rolling_window:
  "(\<exists>s. run_ticks eq (init_viewer t0) ticks = Inr s
       \<and> length (frame_rate_samples s) \<le> 10
       \<and> frame_rate_label (labels s) =
            (if frame_rate_samples s = [] then None
             else Some (sum_list (frame_rate_samples s) / real (length (frame_rate_samples s)))))
   \<and> (length xs = 10 \<longrightarrow> push_sample xs v = Inr (tl xs @ [v]))
   \<and> (length xs < 10 \<longrightarrow> push_sample xs v = Inr (xs @ [v]))"
proof -
  from run_ticks_returns obtain s where s: "run_ticks eq (init_viewer t0) ticks = Inr s"
    by blast
  have init: "length (frame_rate_samples (init_viewer t0)) \<le> 10
     \<and> frame_rate_label (labels (init_viewer t0)) =
          (if frame_rate_samples (init_viewer t0) = [] then None
           else Some (mean (frame_rate_samples (init_viewer t0))))"
    by (simp add: init_viewer_def init_display_def)
  have "length (frame_rate_samples s) \<le> 10
     \<and> frame_rate_label (labels s) =
          (if frame_rate_samples s = [] then None else Some (mean (frame_rate_samples s)))"
    by (rule run_ticks_invariant [where P = "\<lambda>s. length (frame_rate_samples s) \<le> 10
     \<and> frame_rate_label (labels s) =
          (if frame_rate_samples s = [] then None else Some (mean (frame_rate_samples s)))",
        OF init _ s]) (rule tick_window)
  with s push_sample_fifo [of xs v] show ?thesis by (auto simp: mean_def)
qed

theorem rolling_window_witness:
  "observe frame_rate_samples (run_ticks (=) (init_viewer 0)
      [tick_at 1 [frame_at 1] True True, tick_at (3 / 2) [frame_at 2] True True]) = Some [2]
   \<and> observe (\<lambda>s. frame_rate_label (labels s)) (run_ticks (=) (init_viewer 0)
      [tick_at 1 [frame_at 1] True True, tick_at (3 / 2) [frame_at 2] True True]) = Some (Some 2)
   \<and> push_sample [1, 2, 3, 4, 5, 6, 7, 8, 9, 10] 11 = Inr [2, 3, 4, 5, 6, 7, 8, 9, 10, 11]
   \<and> push_sample [1, 2, 3] 4 = Inr [1, 2, 3, 4]"
  using rolling_window [of "(=)" 0
      "[tick_at 1 [frame_at 1] True True, tick_at (3 / 2) [frame_at 2] True True]"
      "[1, 2, 3, 4, 5, 6, 7, 8, 9, 10]" 11]
    rolling_window [of "(=)" 0 "[]" "[1, 2, 3]" 4]
  by (simp add: eval_defs)

section \<open>The lines one tick writes to the log\<close>

lemma tick_front_log:
  assumes "for_frames eq frames now (foldl conn_event_step s evs) frames = Inr s2"
  shows "\<exists>ms. event_log s2 = event_log s @ ms
     \<and> (\<forall>m \<in> set ms. m = QuestDisconnected \<or> (\<exists>ip. m = QuestConnectedFrom ip)
            \<or> (\<exists>d. m = DroppedFrames d))"
proof -
  from conn_events_fold [of s evs] obtain m1 where
    e: "foldl conn_event_step s evs = s\<lparr>event_log := event_log s @ m1\<rparr>"
    and m1: "\<forall>m \<in> set m1. m = QuestDisconnected \<or> (\<exists>ip. m = QuestConnectedFrom ip)" by blast
  have "\<exists>m2. event_log s2 = event_log (foldl conn_event_step s evs) @ m2
     \<and> (\<forall>m \<in> set m2. \<exists>d. m = DroppedFrames d)"
  proof (cases frames)
    case Nil
    with assms have "event_log s2 = event_log (foldl conn_event_step s evs) @ []" by simp
    then show ?thesis by (metis empty_iff list.set(1))
  next
    case (Cons f0 fs)
    from for_frames_keeps [OF Cons assms] show ?thesis by blast
  qed
  then obtain m2 where m2: "event_log s2 = event_log (foldl conn_event_step s evs) @ m2"
    "\<forall>m \<in> set m2. \<exists>d. m = DroppedFrames d" by blast
  have "event_log s2 = event_log s @ (m1 @ m2)" using e m2(1) by simp
  moreover have "\<forall>m \<in> set (m1 @ m2). m = QuestDisconnected \<or> (\<exists>ip. m = QuestConnectedFrom ip)
            \<or> (\<exists>d. m = DroppedFrames d)"
    using m1 m2(2) by auto
  ultimately show ?thesis by blast
qed

lemma tick_log:
  assumes "running s" and "update_loop eq s i = Inr s'"
  shows "\<exists>ms. event_log s' = event_log s @ ms
       @ (case get_battery_percent i of None \<Rightarrow> []
          | Some b \<Rightarrow> if b < 20 \<and> \<not> low_battery_warned s \<and> \<not> log_paused s
                      then [LowBattery b] else [])
       @ (if log_paused s then []
          else spec_edge_events ConnStarted ConnLost (was_connected s) [is_connected i]
             @ spec_edge_events TrackingStarted TrackingLost (was_tracking s) [is_tracking i])
     \<and> (\<forall>m \<in> set ms. m = QuestDisconnected \<or> (\<exists>ip. m = QuestConnectedFrom ip)
            \<or> (\<exists>d. m = DroppedFrames d))"
proof -
  from tick_decompose [OF assms] obtain s2 where
    s2: "for_frames eq (get_all_unread_pose_frames i) (time_now i)
           (foldl conn_event_step s (readQueue i)) (get_all_unread_pose_frames i) = Inr s2"
    and fin: "s' = finish_tick (projr (show_frame_rate (show_status s2 i))) i"
    by blast
  from tick_front_log [OF s2] obtain ms where ms: "event_log s2 = event_log s @ ms"
    "\<forall>m \<in> set ms. m = QuestDisconnected \<or> (\<exists>ip. m = QuestConnectedFrom ip)
            \<or> (\<exists>d. m = DroppedFrames d)" by blast
  have "event_log s' = event_log s @ ms
       @ (case get_battery_percent i of None \<Rightarrow> []
          | Some b \<Rightarrow> if b < 20 \<and> \<not> low_battery_warned s \<and> \<not> log_paused s
                      then [LowBattery b] else [])
       @ (if log_paused s then []
          else spec_edge_events ConnStarted ConnLost (was_connected s) [is_connected i]
             @ spec_edge_events TrackingStarted TrackingLost (was_tracking s) [is_tracking i])"
    by (cases "get_battery_percent i")
      (simp_all add: fin tick_simps tick_front_keeps [OF s2] ms(1) del: spec_edge_events.simps)
  with ms(2) show ?thesis by blast
qed

lemma tick_warned:
  assumes "running s" and "update_loop eq s i = Inr s'"
  shows "low_battery_warned s' =
     (case get_battery_percent i of None \<Rightarrow> low_battery_warned s
      | Some b \<Rightarrow> low_battery_warned s \<or> b < 20)"
proof -
  from tick_decompose [OF assms] obtain s2 where
    s2: "for_frames eq (get_all_unread_pose_frames i) (time_now i)
           (foldl conn_event_step s (readQueue i)) (get_all_unread_pose_frames i) = Inr s2"
    and fin: "s' = finish_tick (projr (show_frame_rate (show_status s2 i))) i"
    by blast
  show ?thesis
    by (cases "get_battery_percent i") (simp_all add: fin tick_simps tick_front_keeps [OF s2])
qed

lemma spec_edge_events_kinds:
  "filter is_low_battery (spec_edge_events ConnStarted ConnLost p [b]) = []"
  "filter is_low_battery (spec_edge_events TrackingStarted TrackingLost p [b]) = []"
  "filter is_conn_edge (spec_edge_events ConnStarted ConnLost p [b])
     = spec_edge_events ConnStarted ConnLost p [b]"
  "filter is_conn_edge (spec_edge_events TrackingStarted TrackingLost p [b]) = []"
  "filter is_tracking_edge (spec_edge_events ConnStarted ConnLost p [b]) = []"
  "filter is_tracking_edge (spec_edge_events TrackingStarted TrackingLost p [b])
     = spec_edge_events TrackingStarted TrackingLost p [b]"
  by (cases p; simp add: is_conn_edge_def is_tracking_edge_def)+

lemma front_kinds:
  assumes "\<forall>m \<in> set ms. m = QuestDisconnected \<or> (\<exists>ip. m = QuestConnectedFrom ip)
            \<or> (\<exists>d. m = DroppedFrames d)"
  shows "filter is_low_battery ms = []" "filter is_conn_edge ms = []"
    "filter is_tracking_edge ms = []"
  using assms by (auto simp: filter_empty_conv is_conn_edge_def is_tracking_edge_def)

lemma tick_low_battery_lines:
  assumes "running s" and "update_loop eq s i = Inr s'"
  shows "filter is_low_battery (event_log s') = filter is_low_battery (event_log s)
       @ (case get_battery_percent i of None \<Rightarrow> []
          | Some b \<Rightarrow> if b < 20 \<and> \<not> low_battery_warned s \<and> \<not> log_paused s
                      then [LowBattery b] else [])"
proof -
  from tick_log [OF assms] obtain ms where
    l: "event_log s' = event_log s @ ms
       @ (case get_battery_percent i of None \<Rightarrow> []
          | Some b \<Rightarrow> if b < 20 \<and> \<not> low_battery_warned s \<and> \<not> log_paused s
                      then [LowBattery b] else [])
       @ (if log_paused s then []
          else spec_edge_events ConnStarted ConnLost (was_connected s) [is_connected i]
             @ spec_edge_events TrackingStarted TrackingLost (was_tracking s) [is_tracking i])"
    and k: "\<forall>m \<in> set ms. m = QuestDisconnected \<or> (\<exists>ip. m = QuestConnectedFrom ip)
            \<or> (\<exists>d. m = DroppedFrames d)" by blast
  show ?thesis
    by (cases "get_battery_percent i")
      (simp_all add: l front_kinds [OF k] spec_edge_events_kinds del: spec_edge_events.simps)
qed

section \<open>C10: one low battery warning\<close>

lemma tick_once_warned:
  assumes "low_battery_warned s" and "update_loop eq s i = Inr s'"
  shows "low_battery_warned s'
     \<and> filter is_low_battery (event_log s') = filter is_low_battery (event_log s)"
proof (cases "running s")
  case False
  with assms show ?thesis by (simp add: update_loop_stopped)
next
  case True
  from tick_warned [OF True assms(2)] tick_low_battery_lines [OF True assms(2)] assms(1)
  show ?thesis by (cases "get_battery_percent i") simp_all
qed

lemma run_once_warned:
  assumes "low_battery_warned s" and "run_ticks eq s ticks = Inr s'"
  shows "low_battery_warned s'
     \<and> filter is_low_battery (event_log s') = filter is_low_battery (event_log s)"
proof -
  have start: "low_battery_warned s
     \<and> filter is_low_battery (event_log s) = filter is_low_battery (event_log s)"
    using assms(1) by simp
  show ?thesis
    by (rule run_ticks_invariant [where P = "\<lambda>u. low_battery_warned u
     \<and> filter is_low_battery (event_log u) = filter is_low_battery (event_log s)",
        OF start _ assms(2)]) (use tick_once_warned in metis)
qed

lemma tick_warning_count:
  assumes "if low_battery_warned s then length (filter is_low_battery (event_log s)) \<le> 1
           else filter is_low_battery (event_log s) = []"
    and "update_loop eq s i = Inr s'"
  shows "if low_battery_warned s' then length (filter is_low_battery (event_log s')) \<le> 1
         else filter is_low_battery (event_log s') = []"
proof (cases "running s")
  case False
  with assms(2) have "s' = s" by (simp add: update_loop_stopped)
  with assms(1) show ?thesis by (auto split: if_splits)
next
  case True
  from tick_warned [OF True assms(2)] tick_low_battery_lines [OF True assms(2)] assms(1)
  show ?thesis by (cases "get_battery_percent i") (auto split: if_splits)
qed

text \<open>
  Claim C10. In every run of ticks from the start of the viewer the log holds at most one
  low battery warning. And from any state: a tick of the running viewer with the log not
  paused, no warning given yet and a battery level below 20 writes the warning, and after
  it no tick writes one again, whatever the later battery levels are.
\<close>

theorem low_battery_warned_once:
  "(\<exists>s'. run_ticks eq (init_viewer t0) ticks = Inr s'
        \<and> length (filter is_low_battery (event_log s')) \<le> 1)
   \<and> (running s \<and> \<not> log_paused s \<and> \<not> low_battery_warned s
        \<and> get_battery_percent i = Some b \<and> b < 20 \<longrightarrow>
       (\<exists>s1 s2. update_loop eq s i = Inr s1
          \<and> filter is_low_battery (event_log s1)
               = filter is_low_battery (event_log s) @ [LowBattery b]
          \<and> run_ticks eq s1 later = Inr s2
          \<and> filter is_low_battery (event_log s2) = filter is_low_battery (event_log s1)))"
proof
  from run_ticks_returns obtain s' where s': "run_ticks eq (init_viewer t0) ticks = Inr s'"
    by blast
  have start: "if low_battery_warned (init_viewer t0)
      then length (filter is_low_battery (event_log (init_viewer t0))) \<le> 1
      else filter is_low_battery (event_log (init_viewer t0)) = []"
    by (simp add: init_viewer_def)
  have "if low_battery_warned s' then length (filter is_low_battery (event_log s')) \<le> 1
        else filter is_low_battery (event_log s') = []"
    by (rule run_ticks_invariant [where P = "\<lambda>u. if low_battery_warned u
          then length (filter is_low_battery (event_log u)) \<le> 1
          else filter is_low_battery (event_log u) = []", OF start _ s'])
      (rule tick_warning_count)
  then have "length (filter is_low_battery (event_log s')) \<le> 1" by (simp split: if_splits)
  with s' show "\<exists>s'. run_ticks eq (init_viewer t0) ticks = Inr s'
        \<and> length (filter is_low_battery (event_log s')) \<le> 1" by blast
next
  show "running s \<and> \<not> log_paused s \<and> \<not> low_battery_warned s
        \<and> get_battery_percent i = Some b \<and> b < 20 \<longrightarrow>
       (\<exists>s1 s2. update_loop eq s i = Inr s1
          \<and> filter is_low_battery (event_log s1)
               = filter is_low_battery (event_log s) @ [LowBattery b]
          \<and> run_ticks eq s1 later = Inr s2
          \<and> filter is_low_battery (event_log s2) = filter is_low_battery (event_log s1))"
  proof
    assume a: "running s \<and> \<not> log_paused s \<and> \<not> low_battery_warned s
        \<and> get_battery_percent i = Some b \<and> b < 20"
    then have r: "running s" by simp
    from update_loop_returns obtain s1 where s1: "update_loop eq s i = Inr s1" by blast
    from run_ticks_returns obtain s2 where s2: "run_ticks eq s1 later = Inr s2" by blast
    from tick_low_battery_lines [OF r s1] a
    have l: "filter is_low_battery (event_log s1)
               = filter is_low_battery (event_log s) @ [LowBattery b]" by simp
    from tick_warned [OF r s1] a have w: "low_battery_warned s1" by simp
    from run_once_warned [OF w s2] s1 s2 l
    show "\<exists>s1 s2. update_loop eq s i = Inr s1
          \<and> filter is_low_battery (event_log s1)
               = filter is_low_battery (event_log s) @ [LowBattery b]
          \<and> run_ticks eq s1 later = Inr s2
          \<and> filter is_low_battery (event_log s2) = filter is_low_battery (event_log s1)"
      by blast
  qed
qed

text \<open>Battery levels 15, 50 and 10 in three ticks: one warning, for 15.\<close>

theorem low_battery_warned_once_witness:
  "observe (\<lambda>s. filter is_low_battery (event_log s))
     (run_ticks (=) (init_viewer 0)
        [(tick_at 1 [] True True)\<lparr>get_battery_percent := Some 15\<rparr>,
         (tick_at 2 [] True True)\<lparr>get_battery_percent := Some 50\<rparr>,
         (tick_at 3 [] True True)\<lparr>get_battery_percent := Some 10\<rparr>]) = Some [LowBattery 15]"
proof -
  have a: "running (init_viewer 0) \<and> \<not> log_paused (init_viewer 0)
      \<and> \<not> low_battery_warned (init_viewer 0)
      \<and> get_battery_percent ((tick_at 1 [] True True)\<lparr>get_battery_percent := Some 15\<rparr>)
          = Some 15 \<and> (15::int) < 20"
    by (simp add: init_viewer_def tick_at_def)
  from low_battery_warned_once [where eq = "(=)" and s = "init_viewer 0"
      and i = "(tick_at 1 [] True True)\<lparr>get_battery_percent := Some 15\<rparr>" and b = 15
      and later = "[(tick_at 2 [] True True)\<lparr>get_battery_percent := Some 50\<rparr>,
         (tick_at 3 [] True True)\<lparr>get_battery_percent := Some 10\<rparr>]"] a
  obtain s1 s2 where
    "update_loop (=) (init_viewer 0)
       ((tick_at 1 [] True True)\<lparr>get_battery_percent := Some 15\<rparr>) = Inr s1"
    "filter is_low_battery (event_log s1)
       = filter is_low_battery (event_log (init_viewer 0)) @ [LowBattery 15]"
    "run_ticks (=) s1 [(tick_at 2 [] True True)\<lparr>get_battery_percent := Some 50\<rparr>,
         (tick_at 3 [] True True)\<lparr>get_battery_percent := Some 10\<rparr>] = Inr s2"
    "filter is_low_battery (event_log s2) = filter is_low_battery (event_log s1)"
    by blast
  then show ?thesis by (simp add: observe_def init_viewer_def)
qed

section \<open>C3: the edge events of the two flags\<close>

lemma tick_edges:
  assumes "running s" and "\<not> log_paused s" and "update_loop eq s i = Inr s'"
  shows "filter is_conn_edge (event_log s') = filter is_conn_edge (event_log s)
           @ spec_edge_events ConnStarted ConnLost (was_connected s) [is_connected i]"
    and "filter is_tracking_edge (event_log s') = filter is_tracking_edge (event_log s)
           @ spec_edge_events TrackingStarted TrackingLost (was_tracking s) [is_tracking i]"
    and "was_connected s' = Some (is_connected i)"
    and "was_tracking s' = Some (is_tracking i)"
proof -
  from tick_log [OF assms(1,3)] obtain ms where
    l: "event_log s' = event_log s @ ms
       @ (case get_battery_percent i of None \<Rightarrow> []
          | Some b \<Rightarrow> if b < 20 \<and> \<not> low_battery_warned s \<and> \<not> log_paused s
                      then [LowBattery b] else [])
       @ (if log_paused s then []
          else spec_edge_events ConnStarted ConnLost (was_connected s) [is_connected i]
             @ spec_edge_events TrackingStarted TrackingLost (was_tracking s) [is_tracking i])"
    and k: "\<forall>m \<in> set ms. m = QuestDisconnected \<or> (\<exists>ip. m = QuestConnectedFrom ip)
            \<or> (\<exists>d. m = DroppedFrames d)" by blast
  show "filter is_conn_edge (event_log s') = filter is_conn_edge (event_log s)
           @ spec_edge_events ConnStarted ConnLost (was_connected s) [is_connected i]"
    using assms(2)
    by (cases "get_battery_percent i")
      (simp_all add: l front_kinds [OF k] spec_edge_events_kinds is_conn_edge_def
        del: spec_edge_events.simps)
  show "filter is_tracking_edge (event_log s') = filter is_tracking_edge (event_log s)
           @ spec_edge_events TrackingStarted TrackingLost (was_tracking s) [is_tracking i]"
    using assms(2)
    by (cases "get_battery_percent i")
      (simp_all add: l front_kinds [OF k] spec_edge_events_kinds is_tracking_edge_def
        del: spec_edge_events.simps)
  from tick_decompose [OF assms(1,3)] obtain s2 where
    fin: "s' = finish_tick (projr (show_frame_rate (show_status s2 i))) i"
    by blast
  show "was_connected s' = Some (is_connected i)" by (simp add: fin tick_simps)
  show "was_tracking s' = Some (is_tracking i)" by (simp add: fin tick_simps)
qed

lemma run_edges:
  assumes "running s" and "\<not> log_paused s" and "run_ticks eq s ticks = Inr s'"
  shows "filter is_conn_edge (event_log s') = filter is_conn_edge (event_log s)
           @ spec_edge_events ConnStarted ConnLost (was_connected s) (map is_connected ticks)
     \<and> filter is_tracking_edge (event_log s') = filter is_tracking_edge (event_log s)
           @ spec_edge_events TrackingStarted TrackingLost (was_tracking s)
               (map is_tracking ticks)"
  using assms
proof (induction ticks arbitrary: s)
  case Nil
  then show ?case by simp
next
  case (Cons i ticks)
  from update_loop_returns obtain s1 where s1: "update_loop eq s i = Inr s1" by blast
  from tick_keeps(1,2) [OF s1] Cons.prems(1,2)
  have r1: "running s1" and p1: "\<not> log_paused s1" by simp_all
  from s1 Cons.prems(3) have run: "run_ticks eq s1 ticks = Inr s'" by simp
  note e = tick_edges [OF Cons.prems(1,2) s1]
  have c: "spec_edge_events ConnStarted ConnLost (was_connected s)
             (map is_connected (i # ticks))
         = spec_edge_events ConnStarted ConnLost (was_connected s) [is_connected i]
           @ spec_edge_events ConnStarted ConnLost (Some (is_connected i))
               (map is_connected ticks)"
    by simp
  have t: "spec_edge_events TrackingStarted TrackingLost (was_tracking s)
             (map is_tracking (i # ticks))
         = spec_edge_events TrackingStarted TrackingLost (was_tracking s) [is_tracking i]
           @ spec_edge_events TrackingStarted TrackingLost (Some (is_tracking i))
               (map is_tracking ticks)"
    by simp
  from Cons.IH [OF r1 p1 run] e show ?case
    by (simp only: c t append_assoc)
qed

text \<open>
  Claim C3, as amended. Before the first tick the previous value of each flag is unknown
  (the attribute does not exist), so the first tick writes no edge event, whatever the
  flags are. From then on, while the viewer runs and the log is not paused, the edge
  events a run of ticks writes for each flag are the ones the specification describes,
  in order: on each tick one "started" line when the flag went from false to true, one
  "lost" line when it went from true to false, nothing when it did not change.
\<close>

theorem edge_events_per_flag:
  assumes "running s" and "\<not> log_paused s"
  shows "was_connected (init_viewer t0) = None \<and> was_tracking (init_viewer t0) = None
     \<and> (\<exists>s'. run_ticks eq s ticks = Inr s'
          \<and> filter is_conn_edge (event_log s') = filter is_conn_edge (event_log s)
               @ spec_edge_events ConnStarted ConnLost (was_connected s)
                   (map is_connected ticks)
          \<and> filter is_tracking_edge (event_log s') = filter is_tracking_edge (event_log s)
               @ spec_edge_events TrackingStarted TrackingLost (was_tracking s)
                   (map is_tracking ticks))"
proof -
  from run_ticks_returns obtain s' where s': "run_ticks eq s ticks = Inr s'" by blast
  from run_edges [OF assms s'] s' show ?thesis by (simp add: init_viewer_def)
qed

text \<open>
  The scenario of the specification, from the start of the viewer: the connection flag is
  false, false, true, true, false and the log gets one "started" and one "lost" line; the
  tracking flag is true from the first tick on and gets none.
\<close>

theorem edge_events_per_flag_witness:
  "observe (\<lambda>s. filter is_conn_edge (event_log s))
     (run_ticks (=) (init_viewer 0)
        [tick_at 1 [] False True, tick_at 2 [] False True, tick_at 3 [] True True,
         tick_at 4 [] True True, tick_at 5 [] False True]) = Some [ConnStarted, ConnLost]
   \<and> observe (\<lambda>s. filter is_tracking_edge (event_log s))
     (run_ticks (=) (init_viewer 0)
        [tick_at 1 [] False True, tick_at 2 [] False True, tick_at 3 [] True True,
         tick_at 4 [] True True, tick_at 5 [] False True]) = Some []"
proof -
  have r: "running (init_viewer 0)" and p: "\<not> log_paused (init_viewer 0)"
    by (simp_all add: init_viewer_def)
  from edge_events_per_flag [where eq = "(=)", OF r p,
    of 0 "[tick_at 1 [] False True, tick_at 2 [] False True, tick_at 3 [] True True,
         tick_at 4 [] True True, tick_at 5 [] False True]"]
  show ?thesis
    by (auto simp: observe_def init_viewer_def tick_at_def is_conn_edge_def
      is_tracking_edge_def)
qed

text \<open>
  The claim as first stated fails on the first tick, where a flag that is true writes no
  "started" line although the label showed "disconnected" before, and while the log is
  paused (a tick with the flag false, the pause button, a tick with the flag true), where
  a flag going from false to true writes nothing.
\<close>

theorem first_tick_edge_counterexample:
  "observe (\<lambda>s. filter is_conn_edge (event_log s))
     (run_ticks (=) (init_viewer 0) [tick_at 1 [] True True]) = Some []
   \<and> observe (\<lambda>s. filter is_tracking_edge (event_log s))
     (run_ticks (=) (init_viewer 0) [tick_at 1 [] True True]) = Some []
   \<and> (case run_ticks (=) (init_viewer 0) [tick_at 1 [] False False] of
        Inl e \<Rightarrow> None
      | Inr s1 \<Rightarrow>
          observe (\<lambda>s. (was_connected s1, log_paused (toggle_log_pause s1),
                        filter is_conn_edge (event_log s)))
            (run_ticks (=) (toggle_log_pause s1) [tick_at 2 [] True True]))
      = Some (Some False, True, [])"
  by (simp add: eval_defs toggle_log_pause_def is_conn_edge_def is_tracking_edge_def)

section \<open>C2: the tracking lost events shown\<close>





section \<open>C7: the custom pose dialog\<close>

text \<open>
  Claim C7. When one of the four fields does not convert with \<^verbatim>\<open>float\<close>, no call
  of \<^verbatim>\<open>set_pose\<close> is made, one error box is shown, nothing is logged and the dialog
  stays as it was. When all four convert, exactly one call of \<^verbatim>\<open>set_pose\<close> is made,
  with the translation (x, y, z) and the rotation (0, 0, yaw in radians), and no error box
  is shown.
\<close>

theorem custom_pose_validated:
  "(py_float (x_entry e) = None \<or> py_float (y_entry e) = None
      \<or> py_float (z_entry e) = None \<or> py_float (yaw_entry e) = None \<longrightarrow>
      set_pose_calls (send_custom_pose py_float s e) = set_pose_calls s
      \<and> length (error_boxes (send_custom_pose py_float s e)) = length (error_boxes s) + 1
      \<and> event_log (send_custom_pose py_float s e) = event_log s
      \<and> custom_dialog_open (send_custom_pose py_float s e) = custom_dialog_open s)
   \<and> (py_float (x_entry e) = Some x \<and> py_float (y_entry e) = Some y
      \<and> py_float (z_entry e) = Some z \<and> py_float (yaw_entry e) = Some yaw_deg \<longrightarrow>
      set_pose_calls (send_custom_pose py_float s e) = set_pose_calls s
        @ [\<lparr>pose_x = x, pose_y = y, pose_z = z,
            rot_x = 0, rot_y = 0, rot_z = yaw_deg * pi / 180\<rparr>]
      \<and> error_boxes (send_custom_pose py_float s e) = error_boxes s
      \<and> \<not> custom_dialog_open (send_custom_pose py_float s e))"
  by (cases "py_float (x_entry e)"; cases "py_float (y_entry e)";
      cases "py_float (z_entry e)"; cases "py_float (yaw_entry e)")
    (simp_all add: send_custom_pose_def show_invalid_input_def viewer_log_eq py_radians_def
      Let_def)

theorem custom_pose_validated_witness:
  "set_pose_calls (send_custom_pose float_of_example (init_viewer 0)
      \<lparr>x_entry = ''0.0'', y_entry = ''abc'', z_entry = ''0.0'', yaw_entry = ''0.0''\<rparr>) = []
   \<and> length (error_boxes (send_custom_pose float_of_example (init_viewer 0)
      \<lparr>x_entry = ''0.0'', y_entry = ''abc'', z_entry = ''0.0'', yaw_entry = ''0.0''\<rparr>)) = 1
   \<and> set_pose_calls (send_custom_pose float_of_example (init_viewer 0)
      \<lparr>x_entry = ''0.0'', y_entry = ''1.0'', z_entry = ''2.5'', yaw_entry = ''0.0''\<rparr>)
     = [\<lparr>pose_x = 0, pose_y = 1, pose_z = 5 / 2, rot_x = 0, rot_y = 0, rot_z = 0\<rparr>]
   \<and> error_boxes (send_custom_pose float_of_example (init_viewer 0)
      \<lparr>x_entry = ''0.0'', y_entry = ''1.0'', z_entry = ''2.5'', yaw_entry = ''0.0''\<rparr>) = []"
  using custom_pose_validated [where py_float = float_of_example and s = "init_viewer 0"
      and e = "\<lparr>x_entry = ''0.0'', y_entry = ''abc'', z_entry = ''0.0'', yaw_entry = ''0.0''\<rparr>"]
    custom_pose_validated [where py_float = float_of_example and s = "init_viewer 0"
      and e = "\<lparr>x_entry = ''0.0'', y_entry = ''1.0'', z_entry = ''2.5'', yaw_entry = ''0.0''\<rparr>"
      and x = 0 and y = 1 and z = "5 / 2" and yaw_deg = 0]
  by (simp add: float_of_example_def init_viewer_def)

section \<open>C6: a tick completes unless a call raises\<close>

lemma update_loop_calls_returning:
  "update_loop_calls eq s (returning i) = update_loop eq s i"
  by (simp add: update_loop_calls_def returning_def update_loop_def show_status_def
      finish_tick_def Let_def split: sum.splits)

lemma first_raised_returning: "first_raised (returning i) = None"
  by (simp add: first_raised_def returning_def)

lemma first_raised_none:
  assumes "first_raised c = None"
  shows "\<exists>i. c = returning i"
proof -
  from assms obtain v1 v2 v3 v4 v5 v6 v7 v8 v9 where v:
    "call_readQueue c = Inr v1" "call_command_periodic c = Inr v2"
    "call_get_all_unread_pose_frames c = Inr v3" "call_is_connected c = Inr v4"
    "call_is_tracking c = Inr v5" "call_get_battery_percent c = Inr v6"
    "call_get_latency c = Inr v7" "call_get_frame_count c = Inr v8"
    "call_get_tracking_lost_counter c = Inr v9"
    by (auto simp: first_raised_def split: sum.splits)
  have "c = returning \<lparr>time_now = call_time c, readQueue = v1,
      get_all_unread_pose_frames = v3, is_connected = v4, is_tracking = v5,
      get_battery_percent = v6, get_latency = v7, get_frame_count = v8,
      get_tracking_lost_counter = v9\<rparr>"
    by (rule library_calls.equality) (simp_all add: returning_def v)
  then show ?thesis ..
qed

lemma update_loop_calls_raises:
  assumes "running s" and "first_raised c = Some e"
  shows "update_loop_calls eq s c = Inl e"
proof (cases "call_readQueue c")
  case (Inl e1)
  with assms show ?thesis by (simp add: update_loop_calls_def first_raised_def)
next
  case q: (Inr events)
  show ?thesis
  proof (cases "call_command_periodic c")
    case (Inl e2)
    with assms q show ?thesis by (simp add: update_loop_calls_def first_raised_def)
  next
    case p: (Inr u)
    show ?thesis
    proof (cases "call_get_all_unread_pose_frames c")
      case (Inl e3)
      with assms q p show ?thesis by (simp add: update_loop_calls_def first_raised_def)
    next
      case f: (Inr frames)
      from for_frames_returns obtain s2 where
        s2: "for_frames eq frames (call_time c) (foldl conn_event_step s events) frames = Inr s2"
        by blast
      from assms q p f s2 show ?thesis
        by (simp add: update_loop_calls_def first_raised_def Let_def split: sum.splits)
    qed
  qed
qed

text \<open>
  Claim C6, as amended. \<^verbatim>\<open>_update_loop\<close> has no exception handler. When every call
  of the library returns, whatever the values are (frames, flags, optional readings,
  listener events), the tick completes: its own operations (\<^verbatim>\<open>frames[0]\<close>,
  \<^verbatim>\<open>1.0 / dt\<close>, \<^verbatim>\<open>pop(0)\<close>, the mean) never raise, while the viewer runs it ends
  with one call of \<^verbatim>\<open>root.after\<close>, and what is absent updates nothing (an empty
  batch leaves the frame counters and the samples, an absent battery level, frame counter
  or tracking-lost counter leaves its label). When a call raises while the viewer runs,
  the exception of the first such call leaves the tick. Every tick is of one of the two
  kinds.
\<close>

theorem tick_completes_unless_call_raises:
  "(\<exists>s'. update_loop_calls eq s (returning i) = Inr s'
      \<and> (if running s then after_calls s' = Suc (after_calls s) else s' = s)
      \<and> (get_all_unread_pose_frames i = [] \<longrightarrow>
           total_frames_received s' = total_frames_received s
           \<and> frame_drops s' = frame_drops s
           \<and> frame_rate_samples s' = frame_rate_samples s)
      \<and> (get_battery_percent i = None \<longrightarrow> batt_label (labels s') = batt_label (labels s))
      \<and> (get_frame_count i = None \<longrightarrow>
           frame_count_label (labels s') = frame_count_label (labels s))
      \<and> (get_tracking_lost_counter i = None \<longrightarrow>
           tracking_lost_label (labels s') = tracking_lost_label (labels s)))
   \<and> (running s \<and> first_raised c = Some e \<longrightarrow> update_loop_calls eq s c = Inl e)
   \<and> (first_raised c = None \<longrightarrow> (\<exists>j. c = returning j))"
  using tick_on_values_completes [of eq s i] update_loop_calls_raises [of s c e eq]
    first_raised_none [of c]
  by (simp only: update_loop_calls_returning) blast

text \<open>
  A tick that goes through every guarded operation: ten samples are held, the batch 10, 11
  comes half a second after the last frame, whose count was 6. And the same tick with
  \<^verbatim>\<open>get_latency\<close> raising.
\<close>

theorem tick_completes_unless_call_raises_witness:
  "observe (\<lambda>s. (after_calls s, frame_drops s, frame_rate_samples s,
               frame_rate_label (labels s), batt_label (labels s)))
     (update_loop_calls (=)
        ((init_viewer 0)\<lparr>last_frame_count := 6, last_frame_time := 1,
           frame_rate_samples := [1, 2, 3, 4, 5, 6, 7, 8, 9, 10]\<rparr>)
        (returning (tick_at (3 / 2) [frame_at 10, frame_at 11] True True)))
     = Some (1, 3, [2, 3, 4, 5, 6, 7, 8, 9, 10, 2], Some (28 / 5), None)
   \<and> update_loop_calls (=)
        ((init_viewer 0)\<lparr>last_frame_count := 6, last_frame_time := 1,
           frame_rate_samples := [1, 2, 3, 4, 5, 6, 7, 8, 9, 10]\<rparr>)
        ((returning (tick_at (3 / 2) [frame_at 10, frame_at 11] True True))
           \<lparr>call_get_latency := Inl LibraryError\<rparr>)
     = Inl LibraryError"
proof -
  have r: "running ((init_viewer 0)\<lparr>last_frame_count := 6, last_frame_time := 1,
           frame_rate_samples := [1, 2, 3, 4, 5, 6, 7, 8, 9, 10]\<rparr>)"
    by (simp add: init_viewer_def)
  have f: "first_raised ((returning (tick_at (3 / 2) [frame_at 10, frame_at 11] True True))
           \<lparr>call_get_latency := Inl LibraryError\<rparr>) = Some LibraryError"
    by (simp add: first_raised_def returning_def)
  have v: "observe (\<lambda>s. (frame_drops s, frame_rate_samples s,
               frame_rate_label (labels s), batt_label (labels s)))
     (update_loop (=)
        ((init_viewer 0)\<lparr>last_frame_count := 6, last_frame_time := 1,
           frame_rate_samples := [1, 2, 3, 4, 5, 6, 7, 8, 9, 10]\<rparr>)
        (tick_at (3 / 2) [frame_at 10, frame_at 11] True True))
     = Some (3, [2, 3, 4, 5, 6, 7, 8, 9, 10, 2], Some (28 / 5), None)"
    by (simp add: eval_defs)
  from tick_completes_unless_call_raises [where eq = "(=)"
      and s = "(init_viewer 0)\<lparr>last_frame_count := 6, last_frame_time := 1,
           frame_rate_samples := [1, 2, 3, 4, 5, 6, 7, 8, 9, 10]\<rparr>"
      and i = "tick_at (3 / 2) [frame_at 10, frame_at 11] True True"
      and c = "(returning (tick_at (3 / 2) [frame_at 10, frame_at 11] True True))
           \<lparr>call_get_latency := Inl LibraryError\<rparr>"
      and e = LibraryError] r f v
  show ?thesis
    by (auto simp: observe_def update_loop_calls_returning init_viewer_def)
qed

text \<open>
  The claim as first stated fails when a call of the library raises: the tick has no
  handler, here for \<^verbatim>\<open>get_battery_percent\<close>, and is left with the exception, after
  the frame of the batch has been counted and before \<^verbatim>\<open>root.after\<close>.
\<close>

theorem library_exception_counterexample:
  "update_loop_calls (=) (init_viewer 0)
     ((returning (tick_at 1 [frame_at 1] True True))
        \<lparr>call_get_battery_percent := Inl LibraryError\<rparr>) = Inl LibraryError"
  by (simp add: update_loop_calls_def returning_def eval_defs)

end
